theory Spec2Isabelle
  imports Main "HOL-Library.Word" "HOL-Library.Monad_Syntax"
begin

unbundle bit_operations_syntax

section \<open>Packet (mpmc\_packet\_queue.h, lines 19--95)\<close>

text \<open>
  \<^verbatim>\<open>size_t\<close>, \<^verbatim>\<open>uint64_t\<close> and pointers are 64-bit words (the static assertion
  on the slot size and the call of \<^verbatim>\<open>__builtin_clzll\<close> with \<^verbatim>\<open>64 -\<close> fix the
  width). The null pointer is the address 0.
\<close>

type_synonym size_t = "64 word"
type_synonym uint64_t = "64 word"

datatype PacketPriority = Low | Medium | High | Control

text \<open>\<^verbatim>\<open>static_cast<uint8_t>(priority)\<close>: the enumerators' values.\<close>

fun priority_value :: "PacketPriority \<Rightarrow> 8 word" where
  "priority_value Low = 0"
| "priority_value Medium = 1"
| "priority_value High = 2"
| "priority_value Control = 3"

record Packet =
  data :: size_t
  length_p :: size_t
  priority :: PacketPriority
  id_p :: size_t

text \<open>The three constructors: default, \<^verbatim>\<open>Packet(size_t i)\<close>, and the full one.\<close>

definition Packet_default :: Packet where
  "Packet_default = \<lparr>data = 0, length_p = 0, priority = Low, id_p = 0\<rparr>"

definition Packet_of_id :: "size_t \<Rightarrow> Packet" where
  "Packet_of_id i = \<lparr>data = 0, length_p = 0, priority = Low, id_p = i\<rparr>"

definition Packet_full :: "size_t \<Rightarrow> size_t \<Rightarrow> PacketPriority \<Rightarrow> size_t \<Rightarrow> Packet" where
  "Packet_full d l p i = \<lparr>data = d, length_p = l, priority = p, id_p = i\<rparr>"

text \<open>
  The move constructor \<^verbatim>\<open>Packet(Packet&& other)\<close>: the result is the pair of the
  new packet and of \<^verbatim>\<open>other\<close> as the constructor leaves it. The body assigns
  \<^verbatim>\<open>other.data\<close>, \<^verbatim>\<open>other.length\<close> and \<^verbatim>\<open>other.id\<close>, and nothing else.
\<close>

definition Packet_move_ctor :: "Packet \<Rightarrow> Packet \<times> Packet" where
  "Packet_move_ctor other =
     (\<lparr>data = data other, length_p = length_p other,
       priority = priority other, id_p = id_p other\<rparr>,
      other\<lparr>data := 0, length_p := 0, id_p := 0\<rparr>)"

text \<open>
  Move assignment \<^verbatim>\<open>operator=(Packet&& other)\<close>. \<open>same\<close> is the outcome of the
  test \<^verbatim>\<open>this != &other\<close> negated: when both names denote one object nothing
  happens. The result is the pair of \<^verbatim>\<open>*this\<close> and \<^verbatim>\<open>other\<close> afterwards.
\<close>

definition Packet_move_assign :: "bool \<Rightarrow> Packet \<Rightarrow> Packet \<Rightarrow> Packet \<times> Packet" where
  "Packet_move_assign same this other =
     (if \<not> same then
        (this\<lparr>data := data other, length_p := length_p other,
              priority := priority other, id_p := id_p other\<rparr>,
         other\<lparr>data := 0, length_p := 0, id_p := 0\<rparr>)
      else (this, other))"

text \<open>Copy assignment is the defaulted member-wise copy.\<close>

definition Packet_copy_assign :: "Packet \<Rightarrow> Packet \<Rightarrow> Packet" where
  "Packet_copy_assign this other =
     this\<lparr>data := data other, length_p := length_p other,
          priority := priority other, id_p := id_p other\<rparr>"

definition Packet_less :: "Packet \<Rightarrow> Packet \<Rightarrow> bool" where
  "Packet_less a b =
     (if priority a \<noteq> priority b then priority_value (priority a) < priority_value (priority b)
      else id_p a < id_p b)"

definition Packet_eq :: "Packet \<Rightarrow> Packet \<Rightarrow> bool" where
  "Packet_eq a b = (id_p a = id_p b \<and> priority a = priority b)"

definition Packet_neq :: "Packet \<Rightarrow> Packet \<Rightarrow> bool" where
  "Packet_neq a b = (\<not> Packet_eq a b)"

definition is_valid :: "Packet \<Rightarrow> bool" where
  "is_valid p = (data p \<noteq> 0 \<and> length_p p > 0)"

definition Packet_reset :: "Packet \<Rightarrow> Packet" where
  "Packet_reset p = p\<lparr>data := 0, length_p := 0, priority := Low, id_p := 0\<rparr>"

section \<open>QueueStats (lines 98--128)\<close>

record QueueStats =
  enqueue_attempts :: uint64_t
  enqueue_successes :: uint64_t
  dequeue_attempts :: uint64_t
  dequeue_successes :: uint64_t
  batch_enqueues :: uint64_t
  batch_dequeues :: uint64_t
  contention_events :: uint64_t

definition QueueStats_init :: QueueStats where
  "QueueStats_init =
     \<lparr>enqueue_attempts = 0, enqueue_successes = 0, dequeue_attempts = 0,
      dequeue_successes = 0, batch_enqueues = 0, batch_dequeues = 0,
      contention_events = 0\<rparr>"

definition QueueStats_reset :: "QueueStats \<Rightarrow> QueueStats" where
  "QueueStats_reset s =
     s\<lparr>enqueue_attempts := 0, enqueue_successes := 0, dequeue_attempts := 0,
       dequeue_successes := 0, batch_enqueues := 0, batch_dequeues := 0,
       contention_events := 0\<rparr>"

section \<open>Backoff (lines 164--190)\<close>

text \<open>
  What one call of \<^verbatim>\<open>operator()\<close> does besides updating the counter: the number of
  iterations of the pause loop, one \<^verbatim>\<open>yield\<close>, or a \<^verbatim>\<open>sleep_for\<close> of so many
  microseconds.
\<close>

datatype backoff_action = Spin nat | Yield | Sleep_us nat

definition MAX_SPINS :: nat where "MAX_SPINS = 16"
definition MAX_YIELDS :: nat where "MAX_YIELDS = 64"

text \<open>
  \<^verbatim>\<open>count_\<close> is an \<^verbatim>\<open>int\<close> that starts at 0, is only ever incremented by
  \<^verbatim>\<open>operator()\<close> and set to 0 by \<^verbatim>\<open>reset\<close>; it never exceeds 80, so it is a
  natural number here. The pause loop runs \<^verbatim>\<open>1 << count_\<close> times. The last branch
  of \<^verbatim>\<open>operator()\<close> has no \<^verbatim>\<open>++count_\<close>.
\<close>

definition Backoff_call :: "nat \<Rightarrow> backoff_action \<times> nat" where
  "Backoff_call count =
     (if count < MAX_SPINS then (Spin (2 ^ count), count + 1)
      else if count < MAX_SPINS + MAX_YIELDS then (Yield, count + 1)
      else (Sleep_us 1, count))"

definition Backoff_reset :: "nat \<Rightarrow> nat" where
  "Backoff_reset count = 0"

section \<open>Capacity rounding (lines 145--161)\<close>

definition SIZE_MAX :: size_t where
  "SIZE_MAX = - 1"

text \<open>
  \<^verbatim>\<open>__builtin_clzll\<close> is the compiler's builtin, not code of the repository: the number
  of leading zero bits of a 64-bit value, counted from bit 63 downwards (undefined at 0;
  the only call site passes \<^verbatim>\<open>v - 1\<close> with \<^verbatim>\<open>v > 1\<close>). \<open>clz_below w n\<close> counts the
  zero bits from bit \<open>n - 1\<close> downwards.
\<close>

fun clz_below :: "64 word \<Rightarrow> nat \<Rightarrow> nat" where
  "clz_below w 0 = 0"
| "clz_below w (Suc n) = (if bit w n then 0 else Suc (clz_below w n))"

definition builtin_clzll :: "64 word \<Rightarrow> nat" where
  "builtin_clzll w = clz_below w 64"

text \<open>The branch compiled under GCC and Clang.\<close>

definition round_up_to_power_of_two :: "size_t \<Rightarrow> size_t" where
  "round_up_to_power_of_two v =
     (if v \<le> 1 then 2
      else if v > drop_bit 1 SIZE_MAX then SIZE_MAX
      else push_bit (64 - builtin_clzll (v - 1)) 1)"

text \<open>The fallback branch of the same function, for other compilers.\<close>

definition round_up_to_power_of_two_fallback :: "size_t \<Rightarrow> size_t" where
  "round_up_to_power_of_two_fallback v =
     (if v \<le> 1 then 2
      else if v > drop_bit 1 SIZE_MAX then SIZE_MAX
      else let v = v - 1;
               v = v OR drop_bit 1 v;
               v = v OR drop_bit 2 v;
               v = v OR drop_bit 4 v;
               v = v OR drop_bit 8 v;
               v = v OR drop_bit 16 v;
               v = v OR drop_bit 32 v
           in v + 1)"

text \<open>
  The specification's \<open>next_power_of_two\<close>, written from its words and not from the
  code: the least power of two that is at least \<open>n\<close>, found by doubling from 1.
\<close>

function next_power_of_two_from :: "nat \<Rightarrow> nat \<Rightarrow> nat" where
  "next_power_of_two_from p n =
     (if n \<le> p \<or> p = 0 then p else next_power_of_two_from (2 * p) n)"
  by pat_completeness auto
termination
  by (relation "measure (\<lambda>(p, n). n - p)") auto

declare next_power_of_two_from.simps [simp del]

definition next_power_of_two :: "nat \<Rightarrow> nat" where
  "next_power_of_two n = next_power_of_two_from 1 n"

section \<open>The queue (lines 130--541)\<close>

record Slot =
  packet :: Packet
  seq :: size_t

text \<open>\<^verbatim>\<open>Slot() : packet(), seq(0)\<close>\<close>

definition Slot_init :: Slot where
  "Slot_init = \<lparr>packet = Packet_default, seq = 0\<rparr>"

text \<open>
  The members \<^verbatim>\<open>capacity_\<close>, \<^verbatim>\<open>mask_\<close>, \<^verbatim>\<open>buffer_\<close>, \<^verbatim>\<open>head_seq_\<close>,
  \<^verbatim>\<open>tail_seq_\<close>, \<^verbatim>\<open>stats_\<close> and \<^verbatim>\<open>enable_stats_\<close>. The operations below are the
  code run by one thread with no other thread running: an atomic load reads the field,
  an atomic store writes it.
\<close>

record MPMC_PacketQueue =
  capacity_m :: size_t
  mask_m :: size_t
  buffer_m :: "Slot list"
  head_seq_m :: size_t
  tail_seq_m :: size_t
  stats_m :: QueueStats
  enable_stats_m :: bool

subsection \<open>Construction (lines 205--225)\<close>

datatype construct_error = Invalid_argument string

text \<open>The loop \<^verbatim>\<open>for (size_t i = 0; i < capacity_; ++i) buffer_[i].seq.store(i)\<close>.\<close>

function init_seq_loop :: "Slot list \<Rightarrow> size_t \<Rightarrow> size_t \<Rightarrow> Slot list" where
  "init_seq_loop buf cap i =
     (if i < cap then init_seq_loop (buf[unat i := (buf ! unat i)\<lparr>seq := i\<rparr>]) cap (i + 1)
      else buf)"
  by pat_completeness auto
termination
proof (relation "measure (\<lambda>(buf, cap, i). unat cap - unat i)")
  show "wf (measure (\<lambda>(buf, cap, i). unat cap - unat i))" by simp
next
  fix buf :: "Slot list" and cap i :: size_t
  assume lt: "i < cap"
  then have ilt: "unat i < unat cap" by (simp add: word_less_nat_alt)
  moreover have "unat cap < 2 ^ 64" using unsigned_less[of cap] by simp
  ultimately have "unat i + unat (1::64 word) < 2 ^ LENGTH(64)" by simp
  then have "unat (i + 1) = unat i + unat (1::64 word)" using unat_add_lem[of i 1] by blast
  then have "unat (i + 1) = Suc (unat i)" by simp
  with ilt show "((buf[unat i := (buf ! unat i)\<lparr>seq := i\<rparr>], cap, i + 1), (buf, cap, i))
        \<in> measure (\<lambda>(buf, cap, i). unat cap - unat i)" by simp
qed

declare init_seq_loop.simps [simp del]

text \<open>
  The constructor. The member initialisers run first (rounding, mask, the buffer of
  default slots, both cursors 0), then the body: the two checks, each throwing
  \<^verbatim>\<open>std::invalid_argument\<close>, and the loop. The allocation itself is taken to succeed;
  where it does not, construction fails as well and no queue exists.
\<close>

definition construct :: "size_t \<Rightarrow> bool \<Rightarrow> construct_error + MPMC_PacketQueue" where
  "construct capacity enable_stats =
     (let capacity_i = round_up_to_power_of_two capacity;
          mask_i = capacity_i - 1;
          buffer_i = replicate (unat capacity_i) Slot_init
      in if capacity = 0 then Inl (Invalid_argument ''Capacity must be greater than 0'')
         else if capacity_i > drop_bit 1 SIZE_MAX then Inl (Invalid_argument ''Capacity too large'')
         else Inr \<lparr>capacity_m = capacity_i, mask_m = mask_i,
                   buffer_m = init_seq_loop buffer_i capacity_i 0,
                   head_seq_m = 0, tail_seq_m = 0,
                   stats_m = QueueStats_init, enable_stats_m = enable_stats\<rparr>)"

subsection \<open>Atomics and statistics\<close>

text \<open>
  \<^verbatim>\<open>compare_exchange_strong(expected, desired)\<close> on a cell holding \<open>cur\<close>: the result
  is the success flag, the cell afterwards and \<^verbatim>\<open>expected\<close> afterwards.
  \<^verbatim>\<open>compare_exchange_weak\<close> may in addition fail although the cell holds the expected
  value; \<open>spurious\<close> says whether this call does.
\<close>

definition compare_exchange_strong :: "size_t \<Rightarrow> size_t \<Rightarrow> size_t \<Rightarrow> bool \<times> size_t \<times> size_t" where
  "compare_exchange_strong cur expected desired =
     (if cur = expected then (True, desired, expected) else (False, cur, cur))"

definition compare_exchange_weak :: "bool \<Rightarrow> size_t \<Rightarrow> size_t \<Rightarrow> size_t \<Rightarrow> bool \<times> size_t \<times> size_t" where
  "compare_exchange_weak spurious cur expected desired =
     (if cur = expected \<and> \<not> spurious then (True, desired, expected) else (False, cur, cur))"

text \<open>
  Every looping operation takes a list \<open>spur\<close>: the outcomes of its successive weak
  compare-exchanges (\<open>True\<close>: fails spuriously). Once the list is used up, no further
  weak compare-exchange fails spuriously.
\<close>

definition next_spurious :: "bool list \<Rightarrow> bool \<times> bool list" where
  "next_spurious spur = (case spur of [] \<Rightarrow> (False, []) | b # bs \<Rightarrow> (b, bs))"

text \<open>\<^verbatim>\<open>if (enable_stats_) stats_.counter.fetch_add(1)\<close>, for the counter that \<open>f\<close> updates.\<close>

definition count_stat :: "(QueueStats \<Rightarrow> QueueStats) \<Rightarrow> MPMC_PacketQueue \<Rightarrow> MPMC_PacketQueue" where
  "count_stat f q = (if enable_stats_m q then q\<lparr>stats_m := f (stats_m q)\<rparr> else q)"

text \<open>
  \<^verbatim>\<open>static_cast<intptr_t>(a) - static_cast<intptr_t>(b)\<close>, as the two's complement
  machine computes it: the difference modulo \<open>2 ^ 64\<close>, read as a signed number.
\<close>

definition signed_diff :: "size_t \<Rightarrow> size_t \<Rightarrow> int" where
  "signed_diff a b = sint (a - b)"

subsection \<open>Single enqueue (lines 236--326)\<close>

text \<open>
  The two overloads have one loop body; they differ in the assignment into the slot:
  \<^verbatim>\<open>slot.packet = packet\<close> copies, \<^verbatim>\<open>slot.packet = std::move(packet)\<close> moves and
  changes the caller's packet. \<open>store_packet\<close> returns the slot's packet and the
  caller's packet after the assignment.
\<close>

definition store_packet :: "bool \<Rightarrow> Packet \<Rightarrow> Packet \<Rightarrow> Packet \<times> Packet" where
  "store_packet by_move slot_packet src =
     (if by_move then Packet_move_assign False slot_packet src
      else (Packet_copy_assign slot_packet src, src))"

text \<open>
  The \<^verbatim>\<open>while (true)\<close> loop of \<^verbatim>\<open>enqueue\<close>; \<open>backoff\<close> is the counter of the local
  \<^verbatim>\<open>Backoff\<close> object, \<open>tail\<close> the local variable. The result is \<open>None\<close> when the loop
  never returns.
\<close>

partial_function (option) enqueue_loop ::
  "bool \<Rightarrow> MPMC_PacketQueue \<Rightarrow> Packet \<Rightarrow> bool list \<Rightarrow> nat \<Rightarrow> size_t
     \<Rightarrow> (bool \<times> MPMC_PacketQueue \<times> Packet) option" where
  "enqueue_loop by_move q src spur backoff tail =
     (let idx = unat (tail AND mask_m q);
          seq_v = seq (buffer_m q ! idx);
          diff = signed_diff seq_v tail
      in if diff = 0 then
           (let (fail, spur') = next_spurious spur;
                (ok, tail_seq', tail') = compare_exchange_weak fail (tail_seq_m q) tail (tail + 1)
            in if ok then
                 (let (slot_packet, src') = store_packet by_move (packet (buffer_m q ! idx)) src
                  in Some (True,
                       count_stat (enqueue_successes_update (\<lambda>n. n + 1))
                         (q\<lparr>tail_seq_m := tail_seq',
                            buffer_m := (buffer_m q)[idx := \<lparr>packet = slot_packet, seq = tail + 1\<rparr>]\<rparr>),
                       src'))
               else enqueue_loop by_move (q\<lparr>tail_seq_m := tail_seq'\<rparr>) src spur'
                      (Backoff_reset backoff) tail')
         else if diff < 0 then
           (let head = head_seq_m q
            in if tail - head \<ge> capacity_m q then Some (False, q, src)
               else (let q' = count_stat (contention_events_update (\<lambda>n. n + 1)) q
                     in enqueue_loop by_move q' src spur (snd (Backoff_call backoff)) (tail_seq_m q')))
         else enqueue_loop by_move q src spur (snd (Backoff_call backoff)) (tail_seq_m q))"

declare enqueue_loop.simps [code]

text \<open>\<^verbatim>\<open>bool enqueue(const Packet& packet)\<close>\<close>

definition enqueue :: "MPMC_PacketQueue \<Rightarrow> Packet \<Rightarrow> bool list \<Rightarrow> (bool \<times> MPMC_PacketQueue) option" where
  "enqueue q src spur =
     (let q' = count_stat (enqueue_attempts_update (\<lambda>n. n + 1)) q
      in map_option (\<lambda>(ok, q'', src'). (ok, q''))
           (enqueue_loop False q' src spur 0 (tail_seq_m q')))"

text \<open>\<^verbatim>\<open>bool enqueue(Packet&& packet)\<close>; the third component is the caller's packet afterwards.\<close>

definition enqueue_move ::
  "MPMC_PacketQueue \<Rightarrow> Packet \<Rightarrow> bool list \<Rightarrow> (bool \<times> MPMC_PacketQueue \<times> Packet) option" where
  "enqueue_move q src spur =
     (let q' = count_stat (enqueue_attempts_update (\<lambda>n. n + 1)) q
      in enqueue_loop True q' src spur 0 (tail_seq_m q'))"

subsection \<open>Single dequeue (lines 329--374)\<close>

partial_function (option) dequeue_loop ::
  "MPMC_PacketQueue \<Rightarrow> bool list \<Rightarrow> nat \<Rightarrow> size_t \<Rightarrow> (Packet option \<times> MPMC_PacketQueue) option" where
  "dequeue_loop q spur backoff head =
     (let idx = unat (head AND mask_m q);
          seq_v = seq (buffer_m q ! idx);
          diff = signed_diff seq_v (head + 1)
      in if diff = 0 then
           (let (fail, spur') = next_spurious spur;
                (ok, head_seq', head') = compare_exchange_weak fail (head_seq_m q) head (head + 1)
            in if ok then
                 (let (pkt, slot_packet) = Packet_move_ctor (packet (buffer_m q ! idx))
                  in Some (Some pkt,
                       count_stat (dequeue_successes_update (\<lambda>n. n + 1))
                         (q\<lparr>head_seq_m := head_seq',
                            buffer_m := (buffer_m q)[idx := \<lparr>packet = slot_packet,
                                                            seq = head + capacity_m q\<rparr>]\<rparr>)))
               else dequeue_loop (q\<lparr>head_seq_m := head_seq'\<rparr>) spur' (Backoff_reset backoff) head')
         else if diff < 0 then
           (let tail = tail_seq_m q
            in if head \<ge> tail then Some (None, q)
               else (let q' = count_stat (contention_events_update (\<lambda>n. n + 1)) q
                     in dequeue_loop q' spur (snd (Backoff_call backoff)) (head_seq_m q')))
         else dequeue_loop q spur (snd (Backoff_call backoff)) (head_seq_m q))"

declare dequeue_loop.simps [code]

definition dequeue :: "MPMC_PacketQueue \<Rightarrow> bool list \<Rightarrow> (Packet option \<times> MPMC_PacketQueue) option" where
  "dequeue q spur =
     (let q' = count_stat (dequeue_attempts_update (\<lambda>n. n + 1)) q
      in dequeue_loop q' spur 0 (head_seq_m q'))"

subsection \<open>Batch enqueue (lines 377--425)\<close>

text \<open>
  The wait loop \<^verbatim>\<open>while (slot.seq.load() != expected) yield()\<close>. With no other thread
  running the slot does not change between two reads: the loop is left at once or never.
\<close>

partial_function (option) wait_for_seq :: "Slot list \<Rightarrow> nat \<Rightarrow> size_t \<Rightarrow> unit option" where
  "wait_for_seq buf idx expected =
     (if seq (buf ! idx) \<noteq> expected then wait_for_seq buf idx expected else Some ())"

declare wait_for_seq.simps [code]

text \<open>
  The \<^verbatim>\<open>for\<close> loop that fills the reserved slots. The counts \<^verbatim>\<open>enqueued_count\<close>,
  \<^verbatim>\<open>batch_size\<close> and \<^verbatim>\<open>i\<close> are natural numbers: they are bounded by the size of the
  span, which is a \<^verbatim>\<open>size_t\<close>, so none of them wraps. The cursors wrap.
\<close>

function enqueue_batch_fill ::
  "MPMC_PacketQueue \<Rightarrow> Packet list \<Rightarrow> size_t \<Rightarrow> nat \<Rightarrow> nat \<Rightarrow> nat \<Rightarrow> MPMC_PacketQueue option" where
  "enqueue_batch_fill q packets tail enqueued_count batch_size i =
     (if i < batch_size then
        (let idx = unat ((tail + of_nat i) AND mask_m q)
         in case wait_for_seq (buffer_m q) idx (tail + of_nat i) of
              None \<Rightarrow> None
            | Some u \<Rightarrow>
                enqueue_batch_fill
                  (q\<lparr>buffer_m := (buffer_m q)[idx :=
                        \<lparr>packet = Packet_copy_assign (packet (buffer_m q ! idx))
                                    (packets ! (enqueued_count + i)),
                         seq = tail + of_nat i + 1\<rparr>]\<rparr>)
                  packets tail enqueued_count batch_size (i + 1))
      else Some q)"
  by pat_completeness auto
termination
  by (relation "measure (\<lambda>(q, packets, tail, enqueued_count, batch_size, i). batch_size - i)") auto

declare enqueue_batch_fill.simps [simp del]

partial_function (option) enqueue_batch_loop ::
  "MPMC_PacketQueue \<Rightarrow> Packet list \<Rightarrow> bool list \<Rightarrow> nat \<Rightarrow> nat \<Rightarrow> (nat \<times> MPMC_PacketQueue) option" where
  "enqueue_batch_loop q packets spur backoff enqueued_count =
     (if enqueued_count < length packets then
        (let tail = tail_seq_m q;
             head = head_seq_m q
         in if tail - head \<ge> capacity_m q then Some (enqueued_count, q)
            else
              (let available_space = capacity_m q - (tail - head);
                   batch_size = min (length packets - enqueued_count) (unat available_space)
               in if batch_size = 0 then
                    enqueue_batch_loop q packets spur (snd (Backoff_call backoff)) enqueued_count
                  else
                    (let (fail, spur') = next_spurious spur;
                         (ok, tail_seq', tail') =
                            compare_exchange_weak fail (tail_seq_m q) tail (tail + of_nat batch_size)
                     in if ok then
                          Option.bind
                            (enqueue_batch_fill (q\<lparr>tail_seq_m := tail_seq'\<rparr>) packets tail
                               enqueued_count batch_size 0)
                            (\<lambda>q'. enqueue_batch_loop q' packets spur' (Backoff_reset backoff)
                                    (enqueued_count + batch_size))
                        else enqueue_batch_loop (q\<lparr>tail_seq_m := tail_seq'\<rparr>) packets spur'
                               (snd (Backoff_call backoff)) enqueued_count)))
      else Some (enqueued_count, q))"

declare enqueue_batch_loop.simps [code]

definition enqueue_batch ::
  "MPMC_PacketQueue \<Rightarrow> Packet list \<Rightarrow> bool list \<Rightarrow> (nat \<times> MPMC_PacketQueue) option" where
  "enqueue_batch q packets spur =
     (if packets = [] then Some (0, q)
      else enqueue_batch_loop (count_stat (batch_enqueues_update (\<lambda>n. n + 1)) q) packets spur 0 0)"

subsection \<open>Batch dequeue (lines 428--476)\<close>

text \<open>\<open>packets\<close> is the caller's writable span; the loop returns it as it leaves it.\<close>

function dequeue_batch_drain ::
  "MPMC_PacketQueue \<Rightarrow> Packet list \<Rightarrow> size_t \<Rightarrow> nat \<Rightarrow> nat \<Rightarrow> nat
     \<Rightarrow> (MPMC_PacketQueue \<times> Packet list) option" where
  "dequeue_batch_drain q packets head dequeued_count batch_size i =
     (if i < batch_size then
        (let idx = unat ((head + of_nat i) AND mask_m q)
         in case wait_for_seq (buffer_m q) idx (head + of_nat i + 1) of
              None \<Rightarrow> None
            | Some u \<Rightarrow>
                (let (pkt, slot_packet) =
                       Packet_move_assign False (packets ! (dequeued_count + i))
                         (packet (buffer_m q ! idx))
                 in dequeue_batch_drain
                      (q\<lparr>buffer_m := (buffer_m q)[idx :=
                            \<lparr>packet = slot_packet, seq = head + of_nat i + capacity_m q\<rparr>]\<rparr>)
                      (packets[dequeued_count + i := pkt])
                      head dequeued_count batch_size (i + 1)))
      else Some (q, packets))"
  by pat_completeness auto
termination
  by (relation "measure (\<lambda>(q, packets, head, dequeued_count, batch_size, i). batch_size - i)") auto

declare dequeue_batch_drain.simps [simp del]

partial_function (option) dequeue_batch_loop ::
  "MPMC_PacketQueue \<Rightarrow> Packet list \<Rightarrow> bool list \<Rightarrow> nat \<Rightarrow> nat
     \<Rightarrow> (nat \<times> MPMC_PacketQueue \<times> Packet list) option" where
  "dequeue_batch_loop q packets spur backoff dequeued_count =
     (if dequeued_count < length packets then
        (let head = head_seq_m q;
             tail = tail_seq_m q
         in if head \<ge> tail then Some (dequeued_count, q, packets)
            else
              (let available = tail - head;
                   batch_size = min (length packets - dequeued_count) (unat available)
               in if batch_size = 0 then
                    dequeue_batch_loop q packets spur (snd (Backoff_call backoff)) dequeued_count
                  else
                    (let (fail, spur') = next_spurious spur;
                         (ok, head_seq', head') =
                            compare_exchange_weak fail (head_seq_m q) head (head + of_nat batch_size)
                     in if ok then
                          Option.bind
                            (dequeue_batch_drain (q\<lparr>head_seq_m := head_seq'\<rparr>) packets head
                               dequeued_count batch_size 0)
                            (\<lambda>(q', packets'). dequeue_batch_loop q' packets' spur'
                                    (Backoff_reset backoff) (dequeued_count + batch_size))
                        else dequeue_batch_loop (q\<lparr>head_seq_m := head_seq'\<rparr>) packets spur'
                               (snd (Backoff_call backoff)) dequeued_count)))
      else Some (dequeued_count, q, packets))"

declare dequeue_batch_loop.simps [code]

definition dequeue_batch ::
  "MPMC_PacketQueue \<Rightarrow> Packet list \<Rightarrow> bool list
     \<Rightarrow> (nat \<times> MPMC_PacketQueue \<times> Packet list) option" where
  "dequeue_batch q packets spur =
     (if packets = [] then Some (0, q, packets)
      else dequeue_batch_loop (count_stat (batch_dequeues_update (\<lambda>n. n + 1)) q) packets spur 0 0)"

subsection \<open>Try variants (lines 479--507)\<close>

definition try_enqueue :: "MPMC_PacketQueue \<Rightarrow> Packet \<Rightarrow> bool \<times> MPMC_PacketQueue" where
  "try_enqueue q src =
     (let tail = tail_seq_m q;
          idx = unat (tail AND mask_m q);
          seq_v = seq (buffer_m q ! idx)
      in if seq_v = tail then
           (let (ok, tail_seq', tail') = compare_exchange_strong (tail_seq_m q) tail (tail + 1)
            in if ok then
                 (True, q\<lparr>tail_seq_m := tail_seq',
                          buffer_m := (buffer_m q)[idx :=
                             \<lparr>packet = Packet_copy_assign (packet (buffer_m q ! idx)) src,
                              seq = tail + 1\<rparr>]\<rparr>)
               else (False, q\<lparr>tail_seq_m := tail_seq'\<rparr>))
         else (False, q))"

definition try_dequeue :: "MPMC_PacketQueue \<Rightarrow> Packet option \<times> MPMC_PacketQueue" where
  "try_dequeue q =
     (let head = head_seq_m q;
          idx = unat (head AND mask_m q);
          seq_v = seq (buffer_m q ! idx)
      in if seq_v = head + 1 then
           (let (ok, head_seq', head') = compare_exchange_strong (head_seq_m q) head (head + 1)
            in if ok then
                 (let (pkt, slot_packet) = Packet_move_ctor (packet (buffer_m q ! idx))
                  in (Some pkt,
                      q\<lparr>head_seq_m := head_seq',
                        buffer_m := (buffer_m q)[idx :=
                           \<lparr>packet = slot_packet, seq = head + capacity_m q\<rparr>]\<rparr>))
               else (None, q\<lparr>head_seq_m := head_seq'\<rparr>))
         else (None, q))"

subsection \<open>Observers (lines 510--535)\<close>

definition size_q :: "MPMC_PacketQueue \<Rightarrow> size_t" where
  "size_q q = (let tail = tail_seq_m q; head = head_seq_m q in tail - head)"

definition capacity :: "MPMC_PacketQueue \<Rightarrow> size_t" where
  "capacity q = capacity_m q"

definition empty_q :: "MPMC_PacketQueue \<Rightarrow> bool" where
  "empty_q q = (size_q q = 0)"

definition full_q :: "MPMC_PacketQueue \<Rightarrow> bool" where
  "full_q q = (size_q q \<ge> capacity_m q)"

definition get_stats :: "MPMC_PacketQueue \<Rightarrow> QueueStats" where
  "get_stats q = stats_m q"

definition reset_stats :: "MPMC_PacketQueue \<Rightarrow> MPMC_PacketQueue" where
  "reset_stats q = q\<lparr>stats_m := QueueStats_reset (stats_m q)\<rparr>"

section \<open>Sequential executions\<close>

text \<open>
  A call of the interface with its arguments (and, for the looping operations, the
  outcomes of its weak compare-exchanges), what it returns, and the execution of a list
  of calls one after the other on one queue. A call that never returns leaves the whole
  execution without a result.
\<close>

datatype call =
    Enqueue Packet "bool list"
  | Enqueue_move Packet "bool list"
  | Dequeue "bool list"
  | Try_enqueue Packet
  | Try_dequeue
  | Enqueue_batch "Packet list" "bool list"
  | Dequeue_batch "Packet list" "bool list"
  | Reset_stats

datatype outcome =
    Enqueued bool
  | Dequeued "Packet option"
  | Batch_enqueued nat
  | Batch_dequeued nat "Packet list"
  | Stats_reset

fun exec_call :: "call \<Rightarrow> MPMC_PacketQueue \<Rightarrow> (outcome \<times> MPMC_PacketQueue) option" where
  "exec_call (Enqueue p spur) q =
     map_option (\<lambda>(ok, q'). (Enqueued ok, q')) (enqueue q p spur)"
| "exec_call (Enqueue_move p spur) q =
     map_option (\<lambda>(ok, q', p'). (Enqueued ok, q')) (enqueue_move q p spur)"
| "exec_call (Dequeue spur) q =
     map_option (\<lambda>(r, q'). (Dequeued r, q')) (dequeue q spur)"
| "exec_call (Try_enqueue p) q =
     (case try_enqueue q p of (ok, q') \<Rightarrow> Some (Enqueued ok, q'))"
| "exec_call Try_dequeue q =
     (case try_dequeue q of (r, q') \<Rightarrow> Some (Dequeued r, q'))"
| "exec_call (Enqueue_batch ps spur) q =
     map_option (\<lambda>(n, q'). (Batch_enqueued n, q')) (enqueue_batch q ps spur)"
| "exec_call (Dequeue_batch ps spur) q =
     map_option (\<lambda>(n, q', ps'). (Batch_dequeued n ps', q')) (dequeue_batch q ps spur)"
| "exec_call Reset_stats q = Some (Stats_reset, reset_stats q)"

fun run :: "call list \<Rightarrow> MPMC_PacketQueue \<Rightarrow> (outcome list \<times> MPMC_PacketQueue) option" where
  "run [] q = Some ([], q)"
| "run (c # cs) q =
     (case exec_call c q of
        None \<Rightarrow> None
      | Some (out, q') \<Rightarrow>
          (case run cs q' of
             None \<Rightarrow> None
           | Some (outs, q'') \<Rightarrow> Some (out # outs, q'')))"

text \<open>
  The elements a call adds to the queue (negative: removes), read off what it returned:
  a successful single enqueue adds one, a successful single dequeue removes one, a batch
  adds or removes the count it returned.
\<close>

fun resident_delta :: "outcome \<Rightarrow> int" where
  "resident_delta (Enqueued ok) = (if ok then 1 else 0)"
| "resident_delta (Dequeued r) = (if r = None then 0 else - 1)"
| "resident_delta (Batch_enqueued n) = int n"
| "resident_delta (Batch_dequeued n ps) = - int n"
| "resident_delta Stats_reset = 0"

definition resident :: "outcome list \<Rightarrow> int" where
  "resident outs = sum_list (map resident_delta outs)"

subsection \<open>The invariant of sequential executions\<close>

text \<open>
  \<open>slots_ok q h n\<close>: counted from cursor \<open>h\<close>, the first \<open>n\<close> slots are published
  (\<open>seq\<close> is the cursor plus one) and the others are free for the producer of their
  cursor (\<open>seq\<close> is the cursor). \<open>queue_inv\<close>: the capacity is a power of two between
  \<open>2\<close> and \<open>2 ^ 62\<close>, the mask and the buffer fit it, at most \<open>capacity\<close> elements lie
  between the cursors, and the slots are in that state from \<open>head\<close> with
  \<open>tail - head\<close> published ones.
\<close>

definition slots_ok :: "MPMC_PacketQueue \<Rightarrow> size_t \<Rightarrow> nat \<Rightarrow> bool" where
  "slots_ok q h n =
     (\<forall>j \<in> set [0..<unat (capacity_m q)].
        seq (buffer_m q ! unat ((h + of_nat j) AND mask_m q))
          = (if j < n then h + of_nat j + 1 else h + of_nat j))"

definition pow2_capacity :: "size_t \<Rightarrow> bool" where
  "pow2_capacity c = (c \<in> set (map (\<lambda>k. 2 ^ k) [1..<63]))"

definition queue_inv :: "MPMC_PacketQueue \<Rightarrow> bool" where
  "queue_inv q =
     (pow2_capacity (capacity_m q) \<and> mask_m q = capacity_m q - 1
      \<and> length (buffer_m q) = unat (capacity_m q)
      \<and> size_q q \<le> capacity_m q
      \<and> slots_ok q (head_seq_m q) (unat (size_q q)))"

subsection \<open>The packets in the queue\<close>

text \<open>
  \<open>slot_packets q h n\<close>: the packets in the \<open>n\<close> slots from cursor \<open>h\<close> on, in cursor
  order. \<open>contents\<close>: the packets between \<open>head\<close> and \<open>tail\<close>, oldest first.
\<close>

definition slot_packets :: "MPMC_PacketQueue \<Rightarrow> size_t \<Rightarrow> nat \<Rightarrow> Packet list" where
  "slot_packets q h n =
     map (\<lambda>j. packet (buffer_m q ! unat ((h + of_nat j) AND mask_m q))) [0..<n]"

definition contents :: "MPMC_PacketQueue \<Rightarrow> Packet list" where
  "contents q = slot_packets q (head_seq_m q) (unat (size_q q))"

text \<open>The fields that the loops over the reserved slots leave alone.\<close>

definition same_frame :: "MPMC_PacketQueue \<Rightarrow> MPMC_PacketQueue \<Rightarrow> bool" where
  "same_frame q' q = (capacity_m q' = capacity_m q \<and> mask_m q' = mask_m q
     \<and> head_seq_m q' = head_seq_m q \<and> tail_seq_m q' = tail_seq_m q
     \<and> stats_m q' = stats_m q \<and> enable_stats_m q' = enable_stats_m q
     \<and> length (buffer_m q') = length (buffer_m q))"

text \<open>
  The success counters do not exceed the attempt counters, and the attempt counters do
  not exceed \<open>c\<close>, all read as natural numbers.
\<close>

definition stats_bounded :: "QueueStats \<Rightarrow> nat \<Rightarrow> bool" where
  "stats_bounded s c =
     (unat (enqueue_successes s) \<le> unat (enqueue_attempts s) \<and> unat (enqueue_attempts s) \<le> c
      \<and> unat (dequeue_successes s) \<le> unat (dequeue_attempts s) \<and> unat (dequeue_attempts s) \<le> c)"

text \<open>Construction followed by a list of calls; \<open>None\<close> when construction throws.\<close>

definition run_new :: "size_t \<Rightarrow> bool \<Rightarrow> call list \<Rightarrow> (outcome list \<times> MPMC_PacketQueue) option" where
  "run_new n enable_stats calls =
     (case construct n enable_stats of Inl e \<Rightarrow> None | Inr q \<Rightarrow> run calls q)"

text \<open>A sequence of calls that uses every operation, for the examples below.\<close>

definition example_calls :: "call list" where
  "example_calls =
     [Enqueue (Packet_of_id 1) [], Enqueue_batch [Packet_of_id 2, Packet_of_id 3] [True],
      Dequeue [False, True], Try_enqueue (Packet_of_id 4), Enqueue_move (Packet_of_id 5) [],
      Enqueue (Packet_of_id 6) [], Try_dequeue,
      Dequeue_batch [Packet_default, Packet_default] [True, True]]"

definition example_queue :: MPMC_PacketQueue where
  "example_queue = projr (construct 4 True)"

definition example_final :: "outcome list \<times> MPMC_PacketQueue" where
  "example_final = the (run example_calls example_queue)"

text \<open>
  A queue of capacity 2 with statistics, and the state after two enqueues have filled it.
\<close>

definition wrap_queue :: MPMC_PacketQueue where
  "wrap_queue = projr (construct 1 True)"

definition wrap_full :: "outcome list \<times> MPMC_PacketQueue" where
  "wrap_full = the (run (replicate 2 (Enqueue (Packet_of_id 0) [])) wrap_queue)"

section \<open>Lemmas\<close>

subsection \<open>Capacity rounding and construction\<close>

lemma clz_below_top:
  "\<exists>i<n. bit w i \<Longrightarrow> clz_below w n < n \<and> bit w (n - clz_below w n - 1) \<and> (\<forall>i. n - clz_below w n \<le> i \<and> i < n \<longrightarrow> \<not> bit w i)"
proof (induction n)
  case 0
  then show ?case by simp
next
  case (Suc n)
  show ?case
  proof (cases "bit w n")
    case True
    then show ?thesis by auto
  next
    case False
    with Suc.prems have "\<exists>i<n. bit w i" by (metis less_Suc_eq)
    from Suc.IH[OF this] False show ?thesis
      by (auto simp: Suc_diff_le less_Suc_eq)
  qed
qed

lemma np2_from_pow:
  "j \<le> k \<Longrightarrow> n \<le> 2 ^ k \<Longrightarrow> (k = 0 \<or> 2 ^ (k - 1) < n) \<Longrightarrow> next_power_of_two_from (2 ^ j) n = 2 ^ k"
proof (induction "k - j" arbitrary: j)
  case 0
  then show ?case by (subst next_power_of_two_from.simps) simp
next
  case (Suc d)
  then have jk: "j < k" by simp
  then have "2 ^ j \<le> (2::nat) ^ (k - 1)" by (intro power_increasing) auto
  moreover from Suc.prems jk have "2 ^ (k - 1) < n" by auto
  ultimately have "\<not> n \<le> 2 ^ j" by linarith
  moreover have "next_power_of_two_from (2 ^ Suc j) n = 2 ^ k"
    using Suc by (intro Suc.hyps) auto
  ultimately show ?case by (subst next_power_of_two_from.simps) simp
qed

lemma next_power_of_two_eq:
  "n \<le> 2 ^ k \<Longrightarrow> (k = 0 \<or> 2 ^ (k - 1) < n) \<Longrightarrow> next_power_of_two n = 2 ^ k"
  using np2_from_pow[of 0 k n] by (simp add: next_power_of_two_def)

lemma bit_nat_imp_le: "bit (m::nat) i \<Longrightarrow> 2 ^ i \<le> m"
proof (rule ccontr)
  assume b: "bit m i" and "\<not> 2 ^ i \<le> m"
  then have "take_bit i m = m" by (simp add: take_bit_nat_eq_self)
  with b show False by (metis bit_take_bit_iff less_irrefl)
qed

lemma bits_clear_imp_less:
  assumes "\<forall>i\<ge>k. \<not> bit (m::nat) i"
  shows "m < 2 ^ k"
proof -
  have "take_bit k m = m"
    using assms by (auto simp: bit_eq_iff bit_take_bit_iff) (meson not_le)
  then show ?thesis by (simp add: take_bit_nat_eq_self_iff)
qed

lemma clzll_bounds:
  fixes w :: "64 word"
  assumes "w \<noteq> 0"
  shows "builtin_clzll w < 64"
    and "2 ^ (64 - builtin_clzll w - 1) \<le> unat w"
    and "unat w < 2 ^ (64 - builtin_clzll w)"
proof -
  from assms obtain i where "bit w i" by (auto simp: bit_eq_iff)
  moreover from this have "i < 64" using bit_imp_le_length[of w i] by simp
  ultimately have ex: "\<exists>i<64. bit w i" by blast
  note top = clz_below_top[OF ex, folded builtin_clzll_def]
  from top show "builtin_clzll w < 64" by simp
  from top have "bit (unat w) (64 - builtin_clzll w - 1)"
    by (simp add: bit_unsigned_iff)
  then show "2 ^ (64 - builtin_clzll w - 1) \<le> unat w" by (rule bit_nat_imp_le)
  have "\<forall>i\<ge>64 - builtin_clzll w. \<not> bit (unat w) i"
  proof (intro allI impI)
    fix i assume "64 - builtin_clzll w \<le> i"
    with top show "\<not> bit (unat w) i"
      by (cases "i < 64") (auto simp: bit_unsigned_iff dest: bit_imp_le_length)
  qed
  then show "unat w < 2 ^ (64 - builtin_clzll w)" by (rule bits_clear_imp_less)
qed

lemma SIZE_MAX_half: "drop_bit 1 SIZE_MAX = (9223372036854775807 :: 64 word)"
  unfolding SIZE_MAX_def by code_simp

lemma unat_SIZE_MAX: "unat SIZE_MAX = 18446744073709551615"
  unfolding SIZE_MAX_def by (simp add: unsigned_minus_1_eq_mask mask_eq_exp_minus_1)

lemma unat_SIZE_MAX_half: "unat (drop_bit 1 SIZE_MAX) = 2 ^ 63 - 1"
  unfolding SIZE_MAX_half by simp

lemma gt_SIZE_MAX_half: "(v > drop_bit 1 SIZE_MAX) = (2 ^ 63 \<le> unat v)"
  unfolding word_less_nat_alt unat_SIZE_MAX_half by auto

lemma unat_push_bit_one: "k < 64 \<Longrightarrow> unat (push_bit k (1::64 word)) = 2 ^ k"
  by (simp add: unsigned_push_bit_eq take_bit_nat_eq_self del: push_bit_of_1)

lemma round_up_unat:
  assumes "1 < unat v" "unat v < 2 ^ 63"
  shows "\<exists>k. 1 \<le> k \<and> k \<le> 63 \<and> unat (round_up_to_power_of_two v) = 2 ^ k
             \<and> 2 ^ (k - 1) < unat v \<and> unat v \<le> 2 ^ k"
proof -
  let ?w = "v - 1"
  let ?k = "64 - builtin_clzll ?w"
  from assms have v0: "v \<noteq> 0" by auto
  then have uw: "unat ?w = unat v - 1" by (rule unat_minus_one)
  with assms have w0: "?w \<noteq> 0" by (metis diff_is_0_eq not_le unat_0 One_nat_def)
  note b = clzll_bounds[OF w0]
  have lt: "unat ?w < 2 ^ 63" using uw assms by simp
  have k63: "?k \<le> 63"
  proof (rule ccontr)
    assume "\<not> ?k \<le> 63"
    then have "?k = 64" by simp
    with b(2) have "(2::nat) ^ 63 \<le> unat ?w" by simp
    with lt show False by simp
  qed
  have k1: "1 \<le> ?k" using b(1) by simp
  have not1: "\<not> v \<le> 1" using assms(1) by (simp add: word_le_nat_alt)
  have nothalf: "\<not> v > drop_bit 1 SIZE_MAX"
    using assms(2) unfolding gt_SIZE_MAX_half by simp
  have "round_up_to_power_of_two v = push_bit ?k 1"
    using not1 nothalf by (simp add: round_up_to_power_of_two_def)
  also have "unat (push_bit ?k (1::64 word)) = 2 ^ ?k"
    using k63 by (intro unat_push_bit_one) simp
  finally have "unat (round_up_to_power_of_two v) = 2 ^ ?k" .
  moreover have "2 ^ (?k - 1) < unat v" using b(2) uw assms(1) by simp
  moreover have "unat v \<le> 2 ^ ?k" using b(3) uw by simp
  ultimately show ?thesis using k1 k63 by blast
qed

lemma unat_plus_one_less: "(i::64 word) < cap \<Longrightarrow> unat (i + 1) = Suc (unat i)"
proof -
  assume "i < cap"
  then have "unat i < unat cap" by (simp add: word_less_nat_alt)
  moreover have "unat cap < 2 ^ 64" using unsigned_less[of cap] by simp
  ultimately have "unat i + unat (1::64 word) < 2 ^ LENGTH(64)" by simp
  then have "unat (i + 1) = unat i + unat (1::64 word)" using unat_add_lem[of i 1] by blast
  then show ?thesis by simp
qed

lemma init_seq_loop_length: "length (init_seq_loop buf cap i) = length buf"
proof (induction buf cap i rule: init_seq_loop.induct)
  case (1 buf cap i)
  show ?case
  proof (cases "i < cap")
    case True
    have "init_seq_loop buf cap i
          = init_seq_loop (buf[unat i := (buf ! unat i)\<lparr>seq := i\<rparr>]) cap (i + 1)"
      using True by (subst init_seq_loop.simps) simp
    with "1.IH"[OF True] show ?thesis by simp
  next
    case False
    then show ?thesis by (subst init_seq_loop.simps) simp
  qed
qed

lemma init_seq_loop_nth:
  "j < length buf \<Longrightarrow> length buf = unat cap \<Longrightarrow>
   init_seq_loop buf cap i ! j =
     (if unat i \<le> j then (buf ! j)\<lparr>seq := of_nat j\<rparr> else buf ! j)"
proof (induction buf cap i rule: init_seq_loop.induct)
  case (1 buf cap i)
  show ?case
  proof (cases "i < cap")
    case True
    then have u: "unat (i + 1) = Suc (unat i)" by (rule unat_plus_one_less)
    from True have ilt: "unat i < unat cap" by (simp add: word_less_nat_alt)
    have "init_seq_loop buf cap i ! j
          = init_seq_loop (buf[unat i := (buf ! unat i)\<lparr>seq := i\<rparr>]) cap (i + 1) ! j"
      using True by (subst init_seq_loop.simps) simp
    also have "\<dots> = (if unat (i + 1) \<le> j
                     then (buf[unat i := (buf ! unat i)\<lparr>seq := i\<rparr>] ! j)\<lparr>seq := of_nat j\<rparr>
                     else buf[unat i := (buf ! unat i)\<lparr>seq := i\<rparr>] ! j)"
      using "1.IH"[OF True] "1.prems" by simp
    also have "\<dots> = (if unat i \<le> j then (buf ! j)\<lparr>seq := of_nat j\<rparr> else buf ! j)"
      using u "1.prems" ilt by (cases "j = unat i") (auto simp: nth_list_update)
    finally show ?thesis .
  next
    case False
    then have "unat cap \<le> unat i" by (simp add: word_less_nat_alt)
    with "1.prems" False show ?thesis by (subst init_seq_loop.simps) simp
  qed
qed

text \<open>What the constructor accepts, and the capacity it then has.\<close>

lemma construct_eq:
  "construct n st =
     (if n = 0 then Inl (Invalid_argument ''Capacity must be greater than 0'')
      else if 2 ^ 63 \<le> unat (round_up_to_power_of_two n)
        then Inl (Invalid_argument ''Capacity too large'')
      else Inr \<lparr>capacity_m = round_up_to_power_of_two n, mask_m = round_up_to_power_of_two n - 1,
          buffer_m = init_seq_loop (replicate (unat (round_up_to_power_of_two n)) Slot_init)
                       (round_up_to_power_of_two n) 0,
          head_seq_m = 0, tail_seq_m = 0,
          stats_m = QueueStats_init, enable_stats_m = st\<rparr>)"
  unfolding construct_def Let_def gt_SIZE_MAX_half by (rule refl)

lemma round_up_cases:
  assumes "n \<noteq> 0" "unat (round_up_to_power_of_two n) < 2 ^ 63"
  shows "\<exists>k. 1 \<le> k \<and> k \<le> 62 \<and> round_up_to_power_of_two n = 2 ^ k
            \<and> unat (round_up_to_power_of_two n) = max 2 (next_power_of_two (unat n))"
proof (cases "unat n \<le> 1")
  case True
  with assms(1) have "unat n = 1" by (metis le_antisym unat_eq_zero not_less_eq_eq le0 One_nat_def)
  then have n1: "n = 1" by (metis unat_1 word_unat_eq_iff)
  have "next_power_of_two 1 = 1" using next_power_of_two_eq[of 1 0] by simp
  then show ?thesis using n1 by (intro exI[of _ 1]) (simp add: round_up_to_power_of_two_def)
next
  case False
  then have gt1: "1 < unat n" by simp
  have lt: "unat n < 2 ^ 63"
  proof (rule ccontr)
    assume "\<not> unat n < 2 ^ 63"
    then have "n > drop_bit 1 SIZE_MAX" unfolding gt_SIZE_MAX_half by simp
    moreover have "\<not> n \<le> 1" using gt1 by (simp add: word_le_nat_alt)
    ultimately have "round_up_to_power_of_two n = SIZE_MAX"
      by (simp add: round_up_to_power_of_two_def)
    with assms(2) show False by (simp add: unat_SIZE_MAX)
  qed
  from round_up_unat[OF gt1 lt] obtain k where k: "1 \<le> k" "k \<le> 63"
    "unat (round_up_to_power_of_two n) = 2 ^ k" "2 ^ (k - 1) < unat n" "unat n \<le> 2 ^ k"
    by blast
  have k62: "k \<le> 62"
  proof (rule ccontr)
    assume "\<not> k \<le> 62"
    then have "63 \<le> k" by simp
    then have "(2::nat) ^ 63 \<le> 2 ^ k" by (rule power_increasing) simp
    with k(3) assms(2) show False by simp
  qed
  have np: "next_power_of_two (unat n) = 2 ^ k"
    using k by (intro next_power_of_two_eq) auto
  have "(2::nat) \<le> 2 ^ k" using k(1) by (metis power_increasing power_one_right one_le_numeral)
  then have mx: "max 2 ((2::nat) ^ k) = 2 ^ k" by simp
  have "unat (round_up_to_power_of_two n) = unat ((2::64 word) ^ k)"
    using k(3) k62 unat_push_bit_one[of k] by simp
  then have "round_up_to_power_of_two n = 2 ^ k" by (simp only: word_unat_eq_iff)
  with k(1) k62 k(3) np mx show ?thesis by auto
qed

subsection \<open>Slot indices\<close>

lemma pow2_capacityD: "pow2_capacity c \<Longrightarrow> \<exists>k. 1 \<le> k \<and> k \<le> 62 \<and> c = 2 ^ k"
  by (auto simp: pow2_capacity_def)

lemma pow2_capacityI: "1 \<le> k \<Longrightarrow> k \<le> 62 \<Longrightarrow> pow2_capacity (2 ^ k)"
  by (auto simp: pow2_capacity_def)

lemma unat_pow2: "k < 64 \<Longrightarrow> unat ((2::64 word) ^ k) = 2 ^ k"
  using unat_push_bit_one[of k] by simp

lemma unat_and_mask_pow2: "k < 64 \<Longrightarrow> unat ((c::64 word) AND (2 ^ k - 1)) = unat c mod 2 ^ k"
proof -
  assume k: "k < 64"
  have "c AND (2 ^ k - 1) = c mod 2 ^ k"
    by (simp add: take_bit_eq_mask mask_eq_exp_minus_1 flip: take_bit_eq_mod)
  then have "unat (c AND (2 ^ k - 1)) = unat c mod unat ((2::64 word) ^ k)"
    by (simp only: unat_mod)
  with k show ?thesis by (simp only: unat_pow2)
qed

lemma pow2_dvd_64: "k \<le> 64 \<Longrightarrow> (2::nat) ^ k dvd 2 ^ 64"
  by (metis le_imp_power_dvd)

lemma unat_add_mod_pow2:
  "k \<le> 64 \<Longrightarrow> unat ((a::64 word) + b) mod 2 ^ k = (unat a + unat b) mod 2 ^ k"
proof -
  assume "k \<le> 64"
  then have "(2::nat) ^ k dvd 2 ^ 64" by (rule pow2_dvd_64)
  then have "((unat a + unat b) mod 2 ^ 64) mod 2 ^ k = (unat a + unat b) mod 2 ^ k"
    by (rule mod_mod_cancel)
  then show ?thesis by (simp add: unat_word_ariths)
qed

lemma unat_of_nat_mod_pow2:
  "k \<le> 64 \<Longrightarrow> unat (of_nat j :: 64 word) mod 2 ^ k = j mod 2 ^ k"
proof -
  assume "k \<le> 64"
  then have "(2::nat) ^ k dvd 2 ^ 64" by (rule pow2_dvd_64)
  then have "(j mod 2 ^ 64) mod 2 ^ k = j mod 2 ^ k" by (rule mod_mod_cancel)
  then show ?thesis by (simp add: unat_of_nat)
qed

lemma slot_index:
  assumes "k < 64"
  shows "unat (((h::64 word) + of_nat j) AND (2 ^ k - 1)) = (unat h + j) mod 2 ^ k"
proof -
  have "unat ((h + of_nat j) AND (2 ^ k - 1)) = unat (h + of_nat j) mod 2 ^ k"
    using assms by (rule unat_and_mask_pow2)
  also have "\<dots> = (unat h + unat (of_nat j :: 64 word)) mod 2 ^ k"
    using assms by (intro unat_add_mod_pow2) simp
  also have "\<dots> = (unat h mod 2 ^ k + unat (of_nat j :: 64 word) mod 2 ^ k) mod 2 ^ k"
    by (simp add: mod_add_eq)
  also have "\<dots> = (unat h mod 2 ^ k + j mod 2 ^ k) mod 2 ^ k"
    using assms by (simp add: unat_of_nat_mod_pow2)
  also have "\<dots> = (unat h + j) mod 2 ^ k" by (simp add: mod_add_eq)
  finally show ?thesis .
qed

lemma slot_index_inj_le:
  assumes "(a + i) mod m = (a + j) mod m" "i \<le> j" "j < m"
  shows "i = (j::nat)"
proof -
  from assms(2) have "a + i \<le> a + j" by simp
  with assms(1) have "m dvd (a + j) - (a + i)"
    by (metis mod_eq_dvd_iff_nat)
  then have "m dvd j - i" by simp
  moreover have "j - i < m" using assms(3) by simp
  ultimately have "j - i = 0" by (meson dvd_imp_le not_le neq0_conv)
  with assms(2) show ?thesis by simp
qed

lemma slot_index_inj:
  assumes "(a + i) mod m = (a + j) mod m" "i < m" "j < m"
  shows "i = (j::nat)"
proof (cases "i \<le> j")
  case True
  with assms show ?thesis by (intro slot_index_inj_le[of a i m j]) auto
next
  case False
  then have "j \<le> i" by simp
  with assms have "j = i" by (intro slot_index_inj_le[of a j m i]) auto
  then show ?thesis by simp
qed

subsection \<open>Publishing and consuming a slot\<close>

lemma slots_ok_nat:
  assumes "capacity_m q = 2 ^ k" "k \<le> 62" "mask_m q = capacity_m q - 1"
  shows "slots_ok q h n \<longleftrightarrow>
     (\<forall>j < 2 ^ k. seq (buffer_m q ! ((unat h + j) mod 2 ^ k))
                    = (if j < n then h + of_nat j + 1 else h + of_nat j))"
proof -
  have k: "k < 64" using assms(2) by simp
  show ?thesis
    unfolding slots_ok_def using k by (auto simp add: assms(1,3) slot_index unat_pow2)
qed

lemma slots_ok_publish:
  assumes cap: "capacity_m q = 2 ^ k" and k: "k \<le> 62" and mask: "mask_m q = capacity_m q - 1"
    and len: "length (buffer_m q) = 2 ^ k"
    and ok: "slots_ok q h n" and n: "n < 2 ^ k"
  shows "seq (buffer_m q ! unat ((h + of_nat n) AND mask_m q)) = h + of_nat n"
    and "slots_ok (q\<lparr>buffer_m := (buffer_m q)[unat ((h + of_nat n) AND mask_m q) :=
                        \<lparr>packet = p, seq = h + of_nat n + 1\<rparr>]\<rparr>) h (Suc n)"
proof -
  have k64: "k < 64" using k by simp
  have idx: "unat ((h + of_nat n) AND mask_m q) = (unat h + n) mod 2 ^ k"
    using k64 by (simp add: cap mask slot_index)
  note nat = slots_ok_nat[OF cap k mask]
  from ok n show "seq (buffer_m q ! unat ((h + of_nat n) AND mask_m q)) = h + of_nat n"
    unfolding idx nat by auto
  let ?q' = "q\<lparr>buffer_m := (buffer_m q)[unat ((h + of_nat n) AND mask_m q) :=
                        \<lparr>packet = p, seq = h + of_nat n + 1\<rparr>]\<rparr>"
  have nat': "slots_ok ?q' h (Suc n) \<longleftrightarrow>
     (\<forall>j < 2 ^ k. seq (buffer_m ?q' ! ((unat h + j) mod 2 ^ k))
                    = (if j < Suc n then h + of_nat j + 1 else h + of_nat j))"
    by (rule slots_ok_nat) (simp_all add: cap k mask)
  show "slots_ok ?q' h (Suc n)"
    unfolding nat'
  proof (intro allI impI)
    fix j :: nat assume j: "j < 2 ^ k"
    show "seq (buffer_m ?q' ! ((unat h + j) mod 2 ^ k))
            = (if j < Suc n then h + of_nat j + 1 else h + of_nat j)"
    proof (cases "j = n")
      case True
      have "(unat h + n) mod 2 ^ k < length (buffer_m q)" by (simp add: len)
      then show ?thesis using True by (simp add: idx)
    next
      case False
      then have "(unat h + n) mod 2 ^ k \<noteq> (unat h + j) mod 2 ^ k"
        using slot_index_inj[of "unat h" n "2 ^ k" j] n j by auto
      moreover from ok j have "seq (buffer_m q ! ((unat h + j) mod 2 ^ k))
                    = (if j < n then h + of_nat j + 1 else h + of_nat j)"
        unfolding nat by blast
      ultimately show ?thesis using False by (simp add: idx)
    qed
  qed
qed

lemma slots_ok_consume:
  assumes cap: "capacity_m q = 2 ^ k" and k: "k \<le> 62" and mask: "mask_m q = capacity_m q - 1"
    and len: "length (buffer_m q) = 2 ^ k"
    and ok: "slots_ok q h n" and n: "0 < n" "n \<le> 2 ^ k"
  shows "seq (buffer_m q ! unat (h AND mask_m q)) = h + 1"
    and "slots_ok (q\<lparr>buffer_m := (buffer_m q)[unat (h AND mask_m q) :=
                        \<lparr>packet = p, seq = h + capacity_m q\<rparr>]\<rparr>) (h + 1) (n - 1)"
proof -
  have k64: "k < 64" using k by simp
  have idx: "unat (h AND mask_m q) = unat h mod 2 ^ k"
    using k64 by (simp add: cap mask unat_and_mask_pow2)
  note nat = slots_ok_nat[OF cap k mask]
  have pos: "(0::nat) < 2 ^ k" by simp
  from ok pos have "seq (buffer_m q ! ((unat h + 0) mod 2 ^ k))
                    = (if 0 < n then h + of_nat 0 + 1 else h + of_nat 0)"
    unfolding nat by blast
  with n show "seq (buffer_m q ! unat (h AND mask_m q)) = h + 1"
    unfolding idx by simp
  let ?q' = "q\<lparr>buffer_m := (buffer_m q)[unat (h AND mask_m q) :=
                        \<lparr>packet = p, seq = h + capacity_m q\<rparr>]\<rparr>"
  have nat': "slots_ok ?q' (h + 1) (n - 1) \<longleftrightarrow>
     (\<forall>j < 2 ^ k. seq (buffer_m ?q' ! ((unat (h + 1) + j) mod 2 ^ k))
                    = (if j < n - 1 then h + 1 + of_nat j + 1 else h + 1 + of_nat j))"
    by (rule slots_ok_nat) (simp_all add: cap k mask)
  have h1: "\<And>j. (unat (h + 1) + j) mod 2 ^ k = (unat h + Suc j) mod 2 ^ k"
  proof -
    fix j
    have "unat (h + 1) mod 2 ^ k = (unat h + unat (1::64 word)) mod 2 ^ k"
      using k64 by (intro unat_add_mod_pow2) simp
    then have "unat (h + 1) mod 2 ^ k = (unat h + 1) mod 2 ^ k" by simp
    then have "(unat (h + 1) mod 2 ^ k + j) mod 2 ^ k = ((unat h + 1) mod 2 ^ k + j) mod 2 ^ k"
      by simp
    then show "(unat (h + 1) + j) mod 2 ^ k = (unat h + Suc j) mod 2 ^ k"
      by (simp add: mod_add_left_eq)
  qed
  show "slots_ok ?q' (h + 1) (n - 1)"
    unfolding nat' h1
  proof (intro allI impI)
    fix j :: nat assume j: "j < 2 ^ k"
    show "seq (buffer_m ?q' ! ((unat h + Suc j) mod 2 ^ k))
            = (if j < n - 1 then h + 1 + of_nat j + 1 else h + 1 + of_nat j)"
    proof (cases "Suc j = 2 ^ k")
      case True
      have "unat h mod 2 ^ k < length (buffer_m q)" by (simp add: len)
      moreover have "(unat h + Suc j) mod 2 ^ k = unat h mod 2 ^ k" using True by simp
      moreover have "\<not> j < n - 1" using True n by simp
      moreover have "h + capacity_m q = h + 1 + of_nat j"
      proof -
        have "of_nat (Suc j) = (2::64 word) ^ k" using True by simp
        then show ?thesis by (simp add: cap)
      qed
      ultimately show ?thesis by (simp add: idx)
    next
      case False
      with j have sj: "Suc j < 2 ^ k" by simp
      then have "unat h mod 2 ^ k \<noteq> (unat h + Suc j) mod 2 ^ k"
        using slot_index_inj[of "unat h" 0 "2 ^ k" "Suc j"] by auto
      moreover from ok sj have "seq (buffer_m q ! ((unat h + Suc j) mod 2 ^ k))
                    = (if Suc j < n then h + of_nat (Suc j) + 1 else h + of_nat (Suc j))"
        unfolding nat by blast
      moreover have "(Suc j < n) = (j < n - 1)" by auto
      moreover have "h + of_nat (Suc j) = h + 1 + of_nat j" by simp
      ultimately show ?thesis by (simp add: idx del: of_nat_Suc)
    qed
  qed
qed

subsection \<open>Single enqueue\<close>

lemma store_packet_fst: "fst (store_packet by_move sp src) = src"
  by (cases sp; cases src)
     (simp add: store_packet_def Packet_move_assign_def Packet_copy_assign_def)

lemma store_packet_snd:
  "snd (store_packet by_move sp src)
     = (if by_move then src\<lparr>data := 0, length_p := 0, id_p := 0\<rparr> else src)"
  by (simp add: store_packet_def Packet_move_assign_def)

lemma store_packet_eq:
  "store_packet by_move sp src
     = (src, if by_move then src\<lparr>data := 0, length_p := 0, id_p := 0\<rparr> else src)"
  by (cases sp; cases src)
     (simp add: store_packet_def Packet_move_assign_def Packet_copy_assign_def)

lemma Packet_copy_assign_eq: "Packet_copy_assign this other = other"
  by (cases this; cases other) (simp add: Packet_copy_assign_def)

lemma Packet_move_ctor_fst: "fst (Packet_move_ctor other) = other"
  by (cases other) (simp add: Packet_move_ctor_def)

lemma Packet_move_assign_fst: "fst (Packet_move_assign False this other) = other"
  by (cases this; cases other) (simp add: Packet_move_assign_def)

lemma pow2_le_62: "k \<le> 62 \<Longrightarrow> (2::int) ^ k \<le> 2 ^ 62"
  by (rule power_increasing) simp_all

lemma pow2_ge_2: "1 \<le> k \<Longrightarrow> (2::int) \<le> 2 ^ k"
  using power_increasing[of 1 k "2::int"] by simp

lemma sint_one_minus_pow2:
  assumes "1 \<le> k" "k \<le> 62"
  shows "sint (1 - 2 ^ k :: 64 word) < 0"
proof -
  have "(1 - 2 ^ k :: 64 word) = word_of_int (1 - 2 ^ k)" by simp
  then have "sint (1 - 2 ^ k :: 64 word) = signed_take_bit 63 (1 - 2 ^ k :: int)"
    by (simp only: sint_sbintrunc') simp
  also have "\<dots> = 1 - 2 ^ k"
    using pow2_le_62[OF assms(2)] pow2_ge_2[OF assms(1)]
    by (intro signed_take_bit_int_eq_self) simp_all
  finally show ?thesis using pow2_ge_2[OF assms(1)] by simp
qed

lemma queue_invD:
  assumes "queue_inv q"
  obtains k where "1 \<le> k" "k \<le> 62" "capacity_m q = 2 ^ k" "mask_m q = capacity_m q - 1"
    "length (buffer_m q) = 2 ^ k" "unat (tail_seq_m q - head_seq_m q) \<le> 2 ^ k"
    "slots_ok q (head_seq_m q) (unat (tail_seq_m q - head_seq_m q))"
proof -
  from assms have p: "pow2_capacity (capacity_m q)" by (simp add: queue_inv_def)
  then obtain k where k: "1 \<le> k" "k \<le> 62" "capacity_m q = 2 ^ k"
    using pow2_capacityD by blast
  then have u: "unat (capacity_m q) = 2 ^ k" by (simp add: unat_pow2)
  from assms have "size_q q \<le> capacity_m q" by (simp add: queue_inv_def)
  then have "unat (tail_seq_m q - head_seq_m q) \<le> 2 ^ k"
    using u by (simp add: size_q_def word_le_nat_alt)
  with assms k u show ?thesis
    by (intro that[of k]) (simp_all add: queue_inv_def size_q_def)
qed

lemma queue_invI:
  assumes "1 \<le> k" "k \<le> 62" "capacity_m q = 2 ^ k" "mask_m q = capacity_m q - 1"
    "length (buffer_m q) = 2 ^ k" "unat (tail_seq_m q - head_seq_m q) \<le> 2 ^ k"
    "slots_ok q (head_seq_m q) (unat (tail_seq_m q - head_seq_m q))"
  shows "queue_inv q"
proof -
  have u: "unat (capacity_m q) = 2 ^ k" using assms(2,3) by (simp add: unat_pow2)
  have "pow2_capacity (capacity_m q)" using assms(1-3) by (simp add: pow2_capacityI)
  moreover have "size_q q \<le> capacity_m q"
    using assms(6) u by (simp add: size_q_def word_le_nat_alt)
  ultimately show ?thesis using assms u by (simp add: queue_inv_def size_q_def)
qed

lemma slots_ok_cong:
  "capacity_m q' = capacity_m q \<Longrightarrow> mask_m q' = mask_m q \<Longrightarrow> buffer_m q' = buffer_m q
   \<Longrightarrow> slots_ok q' h n = slots_ok q h n"
  by (simp add: slots_ok_def)

lemma queue_inv_count_stat: "queue_inv (count_stat f q) = queue_inv q"
  by (simp add: count_stat_def queue_inv_def size_q_def slots_ok_def)

lemma count_stat_fields:
  "capacity_m (count_stat f q) = capacity_m q"
  "mask_m (count_stat f q) = mask_m q"
  "buffer_m (count_stat f q) = buffer_m q"
  "head_seq_m (count_stat f q) = head_seq_m q"
  "tail_seq_m (count_stat f q) = tail_seq_m q"
  "enable_stats_m (count_stat f q) = enable_stats_m q"
  by (simp_all add: count_stat_def)

text \<open>The state after a successful enqueue of \<open>src\<close>.\<close>

lemma tail_as_offset: "(t::64 word) = h + of_nat (unat (t - h))"
  by simp

lemma enqueue_loop_not_full:
  assumes inv: "queue_inv q" and nf: "size_q q < capacity_m q"
  shows "enqueue_loop by_move q src spur b (tail_seq_m q) =
     Some (True,
       count_stat (enqueue_successes_update (\<lambda>n. n + 1))
         (q\<lparr>tail_seq_m := tail_seq_m q + 1,
            buffer_m := (buffer_m q)[unat (tail_seq_m q AND mask_m q) :=
                           \<lparr>packet = src, seq = tail_seq_m q + 1\<rparr>]\<rparr>),
       if by_move then src\<lparr>data := 0, length_p := 0, id_p := 0\<rparr> else src)"
proof -
  from inv obtain k where k: "1 \<le> k" "k \<le> 62" "capacity_m q = 2 ^ k"
    "mask_m q = capacity_m q - 1" "length (buffer_m q) = 2 ^ k"
    "unat (tail_seq_m q - head_seq_m q) \<le> 2 ^ k"
    "slots_ok q (head_seq_m q) (unat (tail_seq_m q - head_seq_m q))"
    by (rule queue_invD)
  let ?n = "unat (tail_seq_m q - head_seq_m q)"
  have n: "?n < 2 ^ k"
    using nf k(2,3) by (simp add: size_q_def word_less_nat_alt unat_pow2)
  have "seq (buffer_m q ! unat ((head_seq_m q + of_nat ?n) AND mask_m q))
          = head_seq_m q + of_nat ?n"
    using k(3,2,4,5,7) n by (rule slots_ok_publish(1))
  then have seq_eq: "seq (buffer_m q ! unat (tail_seq_m q AND mask_m q)) = tail_seq_m q"
    by simp
  then have diff: "signed_diff (seq (buffer_m q ! unat (tail_seq_m q AND mask_m q))) (tail_seq_m q) = 0"
    by (simp add: signed_diff_def)
  show ?thesis
  proof (induction spur arbitrary: b)
    case Nil
    show ?case
      by (subst enqueue_loop.simps)
         (simp add: diff Let_def next_spurious_def compare_exchange_weak_def store_packet_eq)
  next
    case (Cons f fs)
    show ?case
    proof (cases f)
      case True
      have "enqueue_loop by_move q src (f # fs) b (tail_seq_m q)
              = enqueue_loop by_move q src fs (Backoff_reset b) (tail_seq_m q)"
        by (subst enqueue_loop.simps)
           (simp add: diff Let_def next_spurious_def compare_exchange_weak_def True)
      then show ?thesis using Cons.IH by simp
    next
      case False
      then show ?thesis
        by (subst enqueue_loop.simps)
           (simp add: diff Let_def next_spurious_def compare_exchange_weak_def store_packet_eq)
    qed
  qed
qed

subsection \<open>Single dequeue and the invariant after one step\<close>

lemma Packet_move_ctor_eq:
  "Packet_move_ctor other = (other, other\<lparr>data := 0, length_p := 0, id_p := 0\<rparr>)"
  by (cases other) (simp add: Packet_move_ctor_def)

lemma Packet_move_assign_eq:
  "Packet_move_assign False this other = (other, other\<lparr>data := 0, length_p := 0, id_p := 0\<rparr>)"
  by (cases this; cases other) (simp add: Packet_move_assign_def)

lemma enqueue_loop_full:
  assumes inv: "queue_inv q" and full: "\<not> size_q q < capacity_m q"
  shows "enqueue_loop by_move q src spur b (tail_seq_m q) = Some (False, q, src)"
proof -
  from inv obtain k where k: "1 \<le> k" "k \<le> 62" "capacity_m q = 2 ^ k"
    "mask_m q = capacity_m q - 1" "length (buffer_m q) = 2 ^ k"
    "unat (tail_seq_m q - head_seq_m q) \<le> 2 ^ k"
    "slots_ok q (head_seq_m q) (unat (tail_seq_m q - head_seq_m q))"
    by (rule queue_invD)
  have k64: "k < 64" using k(2) by simp
  let ?h = "head_seq_m q" and ?t = "tail_seq_m q"
  from inv have "size_q q \<le> capacity_m q" by (simp add: queue_inv_def)
  with full have sz: "?t - ?h = 2 ^ k" by (simp add: size_q_def k(3))
  then have n: "unat (?t - ?h) = 2 ^ k" using k64 by (simp add: unat_pow2)
  have t: "?t = ?h + 2 ^ k" using sz by (metis diff_add_cancel add.commute)
  have "unat (?t AND mask_m q) = unat ?t mod 2 ^ k"
    using k64 by (simp add: k(3,4) unat_and_mask_pow2)
  also have "\<dots> = (unat ?h + unat ((2::64 word) ^ k)) mod 2 ^ k"
    unfolding t using k64 by (intro unat_add_mod_pow2) simp
  also have "\<dots> = unat ?h mod 2 ^ k" using k64 by (simp add: unat_pow2)
  also have "\<dots> = unat (?h AND mask_m q)"
    using k64 by (simp add: k(3,4) unat_and_mask_pow2)
  finally have idx: "unat (?t AND mask_m q) = unat (?h AND mask_m q)" .
  have "seq (buffer_m q ! unat (?h AND mask_m q)) = ?h + 1"
    using k(3,2,4,5,7) by (rule slots_ok_consume(1)) (simp_all add: n)
  then have s: "seq (buffer_m q ! unat (?t AND mask_m q)) = ?h + 1" by (simp only: idx)
  have e: "?h + 1 - ?t = 1 - 2 ^ k" by (subst t) simp
  have d: "signed_diff (?h + 1) ?t < 0"
    unfolding signed_diff_def e by (rule sint_one_minus_pow2[OF k(1,2)])
  have ge: "?t - ?h \<ge> capacity_m q" by (simp add: sz k(3))
  show ?thesis
    using d ge by (subst enqueue_loop.simps) (simp add: s Let_def)
qed

lemma unat_offset_Suc:
  assumes "unat ((t::64 word) - h) < 2 ^ k" "k \<le> 62"
  shows "unat (t + 1 - h) = Suc (unat (t - h))"
proof -
  have "(2::nat) ^ k \<le> 2 ^ 62" using assms(2) by (intro power_increasing) simp_all
  with assms(1) have "unat (t - h) + unat (1::64 word) < 2 ^ LENGTH(64)" by simp
  then have "unat (t - h + 1) = unat (t - h) + unat (1::64 word)"
    using unat_add_lem[of "t - h" 1] by blast
  then have u: "unat (t - h + 1) = Suc (unat (t - h))" by simp
  have eq: "t + 1 - h = t - h + 1" by simp
  show ?thesis unfolding eq by (rule u)
qed

lemma queue_inv_after_enqueue:
  fixes p :: Packet
  assumes inv: "queue_inv q" and nf: "size_q q < capacity_m q"
  defines "q' \<equiv> q\<lparr>tail_seq_m := tail_seq_m q + 1,
                   buffer_m := (buffer_m q)[unat (tail_seq_m q AND mask_m q) :=
                                  \<lparr>packet = p, seq = tail_seq_m q + 1\<rparr>]\<rparr>"
  shows "queue_inv q'" and "unat (size_q q') = Suc (unat (size_q q))"
proof -
  from inv obtain k where k: "1 \<le> k" "k \<le> 62" "capacity_m q = 2 ^ k"
    "mask_m q = capacity_m q - 1" "length (buffer_m q) = 2 ^ k"
    "unat (tail_seq_m q - head_seq_m q) \<le> 2 ^ k"
    "slots_ok q (head_seq_m q) (unat (tail_seq_m q - head_seq_m q))"
    by (rule queue_invD)
  let ?h = "head_seq_m q" and ?t = "tail_seq_m q"
  let ?n = "unat (?t - ?h)"
  have n: "?n < 2 ^ k"
    using nf k(2,3) by (simp add: size_q_def word_less_nat_alt unat_pow2)
  have sz: "unat (?t + 1 - ?h) = Suc ?n" using n k(2) by (rule unat_offset_Suc)
  then show "unat (size_q q') = Suc (unat (size_q q))" by (simp add: q'_def size_q_def)
  have "slots_ok (q\<lparr>buffer_m := (buffer_m q)[unat ((?h + of_nat ?n) AND mask_m q) :=
                        \<lparr>packet = p, seq = ?h + of_nat ?n + 1\<rparr>]\<rparr>) ?h (Suc ?n)"
    using k(3,2,4,5,7) n by (rule slots_ok_publish(2))
  then have "slots_ok (q\<lparr>buffer_m := (buffer_m q)[unat (?t AND mask_m q) :=
                        \<lparr>packet = p, seq = ?t + 1\<rparr>]\<rparr>) ?h (Suc ?n)"
    by simp
  then have ok: "slots_ok q' (head_seq_m q') (unat (tail_seq_m q' - head_seq_m q'))"
    by (simp add: q'_def sz slots_ok_def)
  show "queue_inv q'"
    using k(1,2) _ _ _ _ ok
  proof (rule queue_invI)
    show "capacity_m q' = 2 ^ k" by (simp add: q'_def k(3))
    show "mask_m q' = capacity_m q' - 1" by (simp add: q'_def k(4))
    show "length (buffer_m q') = 2 ^ k" by (simp add: q'_def k(5))
    show "unat (tail_seq_m q' - head_seq_m q') \<le> 2 ^ k" using n by (simp add: q'_def sz)
  qed
qed

lemma dequeue_loop_nonempty:
  assumes inv: "queue_inv q" and ne: "size_q q \<noteq> 0"
  shows "dequeue_loop q spur b (head_seq_m q) =
     Some (Some (packet (buffer_m q ! unat (head_seq_m q AND mask_m q))),
       count_stat (dequeue_successes_update (\<lambda>n. n + 1))
         (q\<lparr>head_seq_m := head_seq_m q + 1,
            buffer_m := (buffer_m q)[unat (head_seq_m q AND mask_m q) :=
               \<lparr>packet = (packet (buffer_m q ! unat (head_seq_m q AND mask_m q)))
                            \<lparr>data := 0, length_p := 0, id_p := 0\<rparr>,
                seq = head_seq_m q + capacity_m q\<rparr>]\<rparr>))"
proof -
  from inv obtain k where k: "1 \<le> k" "k \<le> 62" "capacity_m q = 2 ^ k"
    "mask_m q = capacity_m q - 1" "length (buffer_m q) = 2 ^ k"
    "unat (tail_seq_m q - head_seq_m q) \<le> 2 ^ k"
    "slots_ok q (head_seq_m q) (unat (tail_seq_m q - head_seq_m q))"
    by (rule queue_invD)
  let ?h = "head_seq_m q" and ?t = "tail_seq_m q"
  from ne have n: "0 < unat (?t - ?h)" by (simp add: size_q_def unat_gt_0)
  have s: "seq (buffer_m q ! unat (?h AND mask_m q)) = ?h + 1"
    using k(3,2,4,5,7) n k(6) by (rule slots_ok_consume(1))
  have diff: "signed_diff (seq (buffer_m q ! unat (?h AND mask_m q))) (?h + 1) = 0"
    by (simp add: s signed_diff_def)
  show ?thesis
  proof (induction spur arbitrary: b)
    case Nil
    show ?case
      by (subst dequeue_loop.simps)
         (simp add: diff Let_def next_spurious_def compare_exchange_weak_def Packet_move_ctor_eq)
  next
    case (Cons f fs)
    show ?case
    proof (cases f)
      case True
      have "dequeue_loop q (f # fs) b ?h = dequeue_loop q fs (Backoff_reset b) ?h"
        by (subst dequeue_loop.simps)
           (simp add: diff Let_def next_spurious_def compare_exchange_weak_def True)
      then show ?thesis using Cons.IH by simp
    next
      case False
      then show ?thesis
        by (subst dequeue_loop.simps)
           (simp add: diff Let_def next_spurious_def compare_exchange_weak_def Packet_move_ctor_eq)
    qed
  qed
qed

lemma dequeue_loop_empty:
  assumes inv: "queue_inv q" and e: "size_q q = 0"
  shows "dequeue_loop q spur b (head_seq_m q) = Some (None, q)"
proof -
  from inv obtain k where k: "1 \<le> k" "k \<le> 62" "capacity_m q = 2 ^ k"
    "mask_m q = capacity_m q - 1" "length (buffer_m q) = 2 ^ k"
    "unat (tail_seq_m q - head_seq_m q) \<le> 2 ^ k"
    "slots_ok q (head_seq_m q) (unat (tail_seq_m q - head_seq_m q))"
    by (rule queue_invD)
  let ?h = "head_seq_m q" and ?t = "tail_seq_m q"
  from e have th: "?t = ?h" by (simp add: size_q_def)
  have ok0: "slots_ok q ?h 0" using k(7) by (simp add: th)
  have "seq (buffer_m q ! unat ((?h + of_nat 0) AND mask_m q)) = ?h + of_nat 0"
    using k(3,2,4,5) ok0 by (rule slots_ok_publish(1)) simp
  then have s: "seq (buffer_m q ! unat (?h AND mask_m q)) = ?h" by simp
  have "?h - (?h + 1) = - 1" by simp
  then have d: "signed_diff ?h (?h + 1) = - 1" by (simp add: signed_diff_def)
  show ?thesis
    by (subst dequeue_loop.simps) (simp add: s d Let_def th)
qed

lemma queue_inv_after_dequeue:
  fixes p :: Packet
  assumes inv: "queue_inv q" and ne: "size_q q \<noteq> 0"
  defines "q' \<equiv> q\<lparr>head_seq_m := head_seq_m q + 1,
                   buffer_m := (buffer_m q)[unat (head_seq_m q AND mask_m q) :=
                                  \<lparr>packet = p, seq = head_seq_m q + capacity_m q\<rparr>]\<rparr>"
  shows "queue_inv q'" and "Suc (unat (size_q q')) = unat (size_q q)"
proof -
  from inv obtain k where k: "1 \<le> k" "k \<le> 62" "capacity_m q = 2 ^ k"
    "mask_m q = capacity_m q - 1" "length (buffer_m q) = 2 ^ k"
    "unat (tail_seq_m q - head_seq_m q) \<le> 2 ^ k"
    "slots_ok q (head_seq_m q) (unat (tail_seq_m q - head_seq_m q))"
    by (rule queue_invD)
  let ?h = "head_seq_m q" and ?t = "tail_seq_m q"
  let ?n = "unat (?t - ?h)"
  from ne have n: "0 < ?n" by (simp add: size_q_def unat_gt_0)
  have eq: "?t - (?h + 1) = ?t - ?h - 1" by simp
  have "unat (?t - ?h - 1) = ?n - 1"
    using ne by (intro unat_minus_one) (simp add: size_q_def)
  then have sz: "unat (?t - (?h + 1)) = ?n - 1" unfolding eq .
  with n show "Suc (unat (size_q q')) = unat (size_q q)" by (simp add: q'_def size_q_def)
  have "slots_ok (q\<lparr>buffer_m := (buffer_m q)[unat (?h AND mask_m q) :=
                        \<lparr>packet = p, seq = ?h + capacity_m q\<rparr>]\<rparr>) (?h + 1) (?n - 1)"
    using k(3,2,4,5,7) n k(6) by (rule slots_ok_consume(2))
  then have ok: "slots_ok q' (head_seq_m q') (unat (tail_seq_m q' - head_seq_m q'))"
    by (simp add: q'_def sz slots_ok_def)
  show "queue_inv q'"
    using k(1,2) _ _ _ _ ok
  proof (rule queue_invI)
    show "capacity_m q' = 2 ^ k" by (simp add: q'_def k(3))
    show "mask_m q' = capacity_m q' - 1" by (simp add: q'_def k(4))
    show "length (buffer_m q') = 2 ^ k" by (simp add: q'_def k(5))
    show "unat (tail_seq_m q' - head_seq_m q') \<le> 2 ^ k" using k(6) by (simp add: q'_def sz)
  qed
qed

subsection \<open>The packets in the slots\<close>

lemma length_slot_packets: "length (slot_packets q h n) = n"
  by (simp add: slot_packets_def)

lemma length_contents: "length (contents q) = unat (size_q q)"
  by (simp add: contents_def length_slot_packets)

lemma slot_packets_cong:
  "mask_m q' = mask_m q \<Longrightarrow> buffer_m q' = buffer_m q \<Longrightarrow> slot_packets q' h n = slot_packets q h n"
  by (simp add: slot_packets_def)

lemma contents_count_stat: "contents (count_stat f q) = contents q"
  by (simp add: contents_def slot_packets_def size_q_def count_stat_def)

lemma slot_packets_nat:
  assumes "capacity_m q = 2 ^ k" "k \<le> 62" "mask_m q = capacity_m q - 1"
  shows "slot_packets q h n = map (\<lambda>j. packet (buffer_m q ! ((unat h + j) mod 2 ^ k))) [0..<n]"
proof -
  have k: "k < 64" using assms(2) by simp
  show ?thesis unfolding slot_packets_def using k by (simp add: assms(1,3) slot_index)
qed

lemma slot_packets_publish:
  assumes cap: "capacity_m q = 2 ^ k" and k: "k \<le> 62" and mask: "mask_m q = capacity_m q - 1"
    and len: "length (buffer_m q) = 2 ^ k" and n: "n < 2 ^ k"
  shows "slot_packets (q\<lparr>buffer_m := (buffer_m q)[unat ((h + of_nat n) AND mask_m q) :=
                        \<lparr>packet = p, seq = s\<rparr>]\<rparr>) h (Suc n) = slot_packets q h n @ [p]"
proof -
  have k64: "k < 64" using k by simp
  have idx: "unat ((h + of_nat n) AND mask_m q) = (unat h + n) mod 2 ^ k"
    using k64 by (simp add: cap mask slot_index)
  let ?q' = "q\<lparr>buffer_m := (buffer_m q)[unat ((h + of_nat n) AND mask_m q) :=
                        \<lparr>packet = p, seq = s\<rparr>]\<rparr>"
  have nat': "slot_packets ?q' h (Suc n)
      = map (\<lambda>j. packet (buffer_m ?q' ! ((unat h + j) mod 2 ^ k))) [0..<Suc n]"
    by (rule slot_packets_nat) (simp_all add: cap k mask)
  have old: "map (\<lambda>j. packet (buffer_m ?q' ! ((unat h + j) mod 2 ^ k))) [0..<n]
           = map (\<lambda>j. packet (buffer_m q ! ((unat h + j) mod 2 ^ k))) [0..<n]"
  proof (rule map_cong[OF refl])
    fix j assume "j \<in> set [0..<n]"
    then have j: "j < n" by simp
    then have "(unat h + n) mod 2 ^ k \<noteq> (unat h + j) mod 2 ^ k"
      using slot_index_inj[of "unat h" n "2 ^ k" j] n by auto
    then show "packet (buffer_m ?q' ! ((unat h + j) mod 2 ^ k))
             = packet (buffer_m q ! ((unat h + j) mod 2 ^ k))"
      by (simp add: idx)
  qed
  have "(unat h + n) mod 2 ^ k < length (buffer_m q)" by (simp add: len)
  then have new: "packet (buffer_m ?q' ! ((unat h + n) mod 2 ^ k)) = p" by (simp add: idx)
  show ?thesis
    unfolding nat' slot_packets_nat[OF cap k mask] using old new by simp
qed

lemma slot_packets_consume:
  assumes cap: "capacity_m q = 2 ^ k" and k: "k \<le> 62" and mask: "mask_m q = capacity_m q - 1"
    and len: "length (buffer_m q) = 2 ^ k" and n: "0 < n" "n \<le> 2 ^ k"
  shows "slot_packets q h n = packet (buffer_m q ! unat (h AND mask_m q))
           # slot_packets (q\<lparr>buffer_m := (buffer_m q)[unat (h AND mask_m q) := x]\<rparr>) (h + 1) (n - 1)"
proof -
  have k64: "k < 64" using k by simp
  have idx: "unat (h AND mask_m q) = unat h mod 2 ^ k"
    using k64 by (simp add: cap mask unat_and_mask_pow2)
  let ?q' = "q\<lparr>buffer_m := (buffer_m q)[unat (h AND mask_m q) := x]\<rparr>"
  have nat': "slot_packets ?q' (h + 1) (n - 1)
      = map (\<lambda>j. packet (buffer_m ?q' ! ((unat (h + 1) + j) mod 2 ^ k))) [0..<n - 1]"
    by (rule slot_packets_nat) (simp_all add: cap k mask)
  have h1: "\<And>j. (unat (h + 1) + j) mod 2 ^ k = (unat h + Suc j) mod 2 ^ k"
  proof -
    fix j
    have "unat (h + 1) mod 2 ^ k = (unat h + unat (1::64 word)) mod 2 ^ k"
      using k64 by (intro unat_add_mod_pow2) simp
    then have "unat (h + 1) mod 2 ^ k = (unat h + 1) mod 2 ^ k" by simp
    then have "(unat (h + 1) mod 2 ^ k + j) mod 2 ^ k = ((unat h + 1) mod 2 ^ k + j) mod 2 ^ k"
      by simp
    then show "(unat (h + 1) + j) mod 2 ^ k = (unat h + Suc j) mod 2 ^ k"
      by (simp add: mod_add_left_eq)
  qed
  have rest: "map (\<lambda>j. packet (buffer_m ?q' ! ((unat h + Suc j) mod 2 ^ k))) [0..<n - 1]
            = map (\<lambda>j. packet (buffer_m q ! ((unat h + Suc j) mod 2 ^ k))) [0..<n - 1]"
  proof (rule map_cong[OF refl])
    fix j assume "j \<in> set [0..<n - 1]"
    then have "Suc j < 2 ^ k" using n by simp
    then have "unat h mod 2 ^ k \<noteq> (unat h + Suc j) mod 2 ^ k"
      using slot_index_inj[of "unat h" 0 "2 ^ k" "Suc j"] by auto
    then show "packet (buffer_m ?q' ! ((unat h + Suc j) mod 2 ^ k))
             = packet (buffer_m q ! ((unat h + Suc j) mod 2 ^ k))"
      by (simp add: idx)
  qed
  have "[0..<n] = 0 # map Suc [0..<n - 1]"
    using n(1) by (metis Suc_pred' map_Suc_upt upt_conv_Cons)
  then have "map (\<lambda>j. packet (buffer_m q ! ((unat h + j) mod 2 ^ k))) [0..<n]
        = packet (buffer_m q ! (unat h mod 2 ^ k))
          # map (\<lambda>j. packet (buffer_m q ! ((unat h + Suc j) mod 2 ^ k))) [0..<n - 1]"
    by (simp add: comp_def)
  then have C: "map (\<lambda>j. packet (buffer_m q ! ((unat h + j) mod 2 ^ k))) [0..<n]
        = packet (buffer_m q ! unat (h AND mask_m q))
          # map (\<lambda>j. packet (buffer_m q ! ((unat h + Suc j) mod 2 ^ k))) [0..<n - 1]"
    by (simp only: idx)
  have A: "slot_packets ?q' (h + 1) (n - 1)
      = map (\<lambda>j. packet (buffer_m q ! ((unat h + Suc j) mod 2 ^ k))) [0..<n - 1]"
    unfolding nat' h1 by (rule rest)
  have B: "slot_packets q h n = map (\<lambda>j. packet (buffer_m q ! ((unat h + j) mod 2 ^ k))) [0..<n]"
    by (rule slot_packets_nat[OF cap k mask])
  show ?thesis unfolding A B by (rule C)
qed

lemma contents_after_enqueue:
  fixes p :: Packet
  assumes inv: "queue_inv q" and nf: "size_q q < capacity_m q"
  shows "contents (q\<lparr>tail_seq_m := tail_seq_m q + 1,
                   buffer_m := (buffer_m q)[unat (tail_seq_m q AND mask_m q) :=
                                  \<lparr>packet = p, seq = s\<rparr>]\<rparr>) = contents q @ [p]"
proof -
  from inv obtain k where k: "1 \<le> k" "k \<le> 62" "capacity_m q = 2 ^ k"
    "mask_m q = capacity_m q - 1" "length (buffer_m q) = 2 ^ k"
    "unat (tail_seq_m q - head_seq_m q) \<le> 2 ^ k"
    by (rule queue_invD)
  let ?h = "head_seq_m q" and ?t = "tail_seq_m q"
  let ?n = "unat (?t - ?h)"
  have n: "?n < 2 ^ k"
    using nf k(2,3) by (simp add: size_q_def word_less_nat_alt unat_pow2)
  have sz: "unat (?t + 1 - ?h) = Suc ?n" using n k(2) by (rule unat_offset_Suc)
  have "slot_packets (q\<lparr>buffer_m := (buffer_m q)[unat ((?h + of_nat ?n) AND mask_m q) :=
                        \<lparr>packet = p, seq = s\<rparr>]\<rparr>) ?h (Suc ?n) = slot_packets q ?h ?n @ [p]"
    using k(3,2,4,5) n by (rule slot_packets_publish)
  then show ?thesis
    by (simp add: contents_def size_q_def sz slot_packets_def)
qed

lemma contents_after_dequeue:
  assumes inv: "queue_inv q" and ne: "size_q q \<noteq> 0"
  shows "contents q = packet (buffer_m q ! unat (head_seq_m q AND mask_m q))
           # contents (q\<lparr>head_seq_m := head_seq_m q + 1,
                   buffer_m := (buffer_m q)[unat (head_seq_m q AND mask_m q) := x]\<rparr>)"
proof -
  from inv obtain k where k: "1 \<le> k" "k \<le> 62" "capacity_m q = 2 ^ k"
    "mask_m q = capacity_m q - 1" "length (buffer_m q) = 2 ^ k"
    "unat (tail_seq_m q - head_seq_m q) \<le> 2 ^ k"
    by (rule queue_invD)
  let ?h = "head_seq_m q" and ?t = "tail_seq_m q"
  let ?n = "unat (?t - ?h)"
  from ne have n: "0 < ?n" by (simp add: size_q_def unat_gt_0)
  have eq: "?t - (?h + 1) = ?t - ?h - 1" by simp
  have "unat (?t - ?h - 1) = ?n - 1"
    using ne by (intro unat_minus_one) (simp add: size_q_def)
  then have sz: "unat (?t - (?h + 1)) = ?n - 1" unfolding eq .
  have "slot_packets q ?h ?n = packet (buffer_m q ! unat (?h AND mask_m q))
           # slot_packets (q\<lparr>buffer_m := (buffer_m q)[unat (?h AND mask_m q) := x]\<rparr>) (?h + 1) (?n - 1)"
    using k(3,2,4,5) n k(6) by (rule slot_packets_consume)
  then show ?thesis
    by (simp add: contents_def size_q_def sz slot_packets_def)
qed

subsection \<open>The loops over reserved slots\<close>

lemma wait_for_seq_ready: "seq (buf ! idx) = e \<Longrightarrow> wait_for_seq buf idx e = Some ()"
  by (subst wait_for_seq.simps) simp

lemma enqueue_batch_fill_ok:
  assumes "capacity_m q = 2 ^ k" "k \<le> 62" "mask_m q = capacity_m q - 1"
    "length (buffer_m q) = 2 ^ k"
    "slots_ok q h (n0 + i)" "n0 + batch_size \<le> 2 ^ k" "i \<le> batch_size"
    "tail = h + of_nat n0"
  shows "\<exists>q'. enqueue_batch_fill q packets tail ec batch_size i = Some q'
              \<and> same_frame q' q \<and> slots_ok q' h (n0 + batch_size)"
  using assms
proof (induction "batch_size - i" arbitrary: q i)
  case 0
  then have "i = batch_size" by simp
  with 0 show ?case
    by (subst enqueue_batch_fill.simps) (simp add: same_frame_def)
next
  case (Suc d)
  then have lt: "i < batch_size" by simp
  let ?idx = "unat ((tail + of_nat i) AND mask_m q)"
  let ?q1 = "q\<lparr>buffer_m := (buffer_m q)[?idx :=
                \<lparr>packet = Packet_copy_assign (packet (buffer_m q ! ?idx)) (packets ! (ec + i)),
                 seq = tail + of_nat i + 1\<rparr>]\<rparr>"
  have ti: "tail + of_nat i = h + of_nat (n0 + i)" by (simp add: Suc.prems(8))
  have n: "n0 + i < 2 ^ k" using lt Suc.prems(6) by simp
  have s: "seq (buffer_m q ! unat ((h + of_nat (n0 + i)) AND mask_m q)) = h + of_nat (n0 + i)"
    using Suc.prems(1,2,3,4,5) n by (rule slots_ok_publish(1))
  then have w: "wait_for_seq (buffer_m q) ?idx (tail + of_nat i) = Some ()"
    unfolding ti by (rule wait_for_seq_ready)
  have ok1: "slots_ok (q\<lparr>buffer_m := (buffer_m q)[unat ((h + of_nat (n0 + i)) AND mask_m q) :=
                \<lparr>packet = Packet_copy_assign (packet (buffer_m q ! ?idx)) (packets ! (ec + i)),
                 seq = h + of_nat (n0 + i) + 1\<rparr>]\<rparr>) h (Suc (n0 + i))"
    using Suc.prems(1,2,3,4,5) n by (rule slots_ok_publish(2))
  have ok1': "slots_ok ?q1 h (n0 + Suc i)"
    using ok1 unfolding ti by simp
  have "\<exists>q'. enqueue_batch_fill ?q1 packets tail ec batch_size (Suc i) = Some q'
              \<and> same_frame q' ?q1 \<and> slots_ok q' h (n0 + batch_size)"
  proof (rule Suc.hyps(1))
    show "d = batch_size - Suc i" using Suc.hyps(2) by simp
    show "capacity_m ?q1 = 2 ^ k" by (simp add: Suc.prems(1))
    show "k \<le> 62" by (rule Suc.prems(2))
    show "mask_m ?q1 = capacity_m ?q1 - 1" by (simp add: Suc.prems(3))
    show "length (buffer_m ?q1) = 2 ^ k" by (simp add: Suc.prems(4))
    show "slots_ok ?q1 h (n0 + Suc i)" by (rule ok1')
    show "n0 + batch_size \<le> 2 ^ k" by (rule Suc.prems(6))
    show "Suc i \<le> batch_size" using lt by simp
    show "tail = h + of_nat n0" by (rule Suc.prems(8))
  qed
  then obtain q' where q': "enqueue_batch_fill ?q1 packets tail ec batch_size (Suc i) = Some q'"
    "same_frame q' ?q1" "slots_ok q' h (n0 + batch_size)" by blast
  have "enqueue_batch_fill q packets tail ec batch_size i
          = enqueue_batch_fill ?q1 packets tail ec batch_size (i + 1)"
    using lt w by (subst enqueue_batch_fill.simps) (simp add: Let_def)
  with q' show ?case by (auto simp: same_frame_def)
qed

lemma dequeue_batch_drain_ok:
  assumes "capacity_m q = 2 ^ k" "k \<le> 62" "mask_m q = capacity_m q - 1"
    "length (buffer_m q) = 2 ^ k"
    "slots_ok q (head + of_nat i) (n - i)" "batch_size \<le> n" "n \<le> 2 ^ k" "i \<le> batch_size"
  shows "\<exists>q' out'. dequeue_batch_drain q out head dc batch_size i = Some (q', out')
              \<and> same_frame q' q \<and> slots_ok q' (head + of_nat batch_size) (n - batch_size)
              \<and> length out' = length out"
  using assms
proof (induction "batch_size - i" arbitrary: q i out)
  case 0
  then have "i = batch_size" by simp
  with 0 show ?case
    by (subst dequeue_batch_drain.simps) (simp add: same_frame_def)
next
  case (Suc d)
  then have lt: "i < batch_size" by simp
  let ?hi = "head + of_nat i"
  let ?idx = "unat (?hi AND mask_m q)"
  let ?sp = "(packet (buffer_m q ! ?idx))\<lparr>data := 0, length_p := 0, id_p := 0\<rparr>"
  let ?q1 = "q\<lparr>buffer_m := (buffer_m q)[?idx := \<lparr>packet = ?sp, seq = ?hi + capacity_m q\<rparr>]\<rparr>"
  let ?out1 = "out[dc + i := packet (buffer_m q ! ?idx)]"
  have n: "0 < n - i" "n - i \<le> 2 ^ k" using lt Suc.prems(6,7) by simp_all
  have s: "seq (buffer_m q ! ?idx) = ?hi + 1"
    using Suc.prems(1,2,3,4,5) n by (rule slots_ok_consume(1))
  then have w: "wait_for_seq (buffer_m q) ?idx (head + of_nat i + 1) = Some ()"
    by (rule wait_for_seq_ready)
  have ok1: "slots_ok ?q1 (?hi + 1) (n - i - 1)"
    using Suc.prems(1,2,3,4,5) n by (rule slots_ok_consume(2))
  have ok1': "slots_ok ?q1 (head + of_nat (Suc i)) (n - Suc i)"
    using ok1 by (simp add: add.assoc add.commute[of 1])
  have "\<exists>q' out'. dequeue_batch_drain ?q1 ?out1 head dc batch_size (Suc i) = Some (q', out')
              \<and> same_frame q' ?q1 \<and> slots_ok q' (head + of_nat batch_size) (n - batch_size)
              \<and> length out' = length ?out1"
  proof (rule Suc.hyps(1))
    show "d = batch_size - Suc i" using Suc.hyps(2) by simp
    show "capacity_m ?q1 = 2 ^ k" by (simp add: Suc.prems(1))
    show "k \<le> 62" by (rule Suc.prems(2))
    show "mask_m ?q1 = capacity_m ?q1 - 1" by (simp add: Suc.prems(3))
    show "length (buffer_m ?q1) = 2 ^ k" by (simp add: Suc.prems(4))
    show "slots_ok ?q1 (head + of_nat (Suc i)) (n - Suc i)" by (rule ok1')
    show "batch_size \<le> n" by (rule Suc.prems(6))
    show "n \<le> 2 ^ k" by (rule Suc.prems(7))
    show "Suc i \<le> batch_size" using lt by simp
  qed
  then obtain q' out' where q':
    "dequeue_batch_drain ?q1 ?out1 head dc batch_size (Suc i) = Some (q', out')"
    "same_frame q' ?q1" "slots_ok q' (head + of_nat batch_size) (n - batch_size)"
    "length out' = length ?out1" by blast
  have "dequeue_batch_drain q out head dc batch_size i
          = dequeue_batch_drain ?q1 ?out1 head dc batch_size (i + 1)"
    using lt w by (subst dequeue_batch_drain.simps) (simp add: Let_def Packet_move_assign_eq)
  with q' show ?case by (auto simp: same_frame_def)
qed

lemma enqueue_batch_fill_packets:
  assumes "capacity_m q = 2 ^ k" "k \<le> 62" "mask_m q = capacity_m q - 1"
    "length (buffer_m q) = 2 ^ k"
    "n0 + batch_size \<le> 2 ^ k" "i \<le> batch_size" "tail = h + of_nat n0"
    "ec + batch_size \<le> length packets"
    "enqueue_batch_fill q packets tail ec batch_size i = Some q'"
  shows "slot_packets q' h (n0 + batch_size)
           = slot_packets q h (n0 + i) @ take (batch_size - i) (drop (ec + i) packets)"
  using assms
proof (induction "batch_size - i" arbitrary: q i)
  case 0
  then have "i = batch_size" by simp
  with 0 show ?case
    by (subst (asm) enqueue_batch_fill.simps) simp
next
  case (Suc d)
  then have lt: "i < batch_size" by simp
  let ?idx = "unat ((tail + of_nat i) AND mask_m q)"
  let ?p = "Packet_copy_assign (packet (buffer_m q ! ?idx)) (packets ! (ec + i))"
  let ?q1 = "q\<lparr>buffer_m := (buffer_m q)[?idx := \<lparr>packet = ?p, seq = tail + of_nat i + 1\<rparr>]\<rparr>"
  have ti: "tail + of_nat i = h + of_nat (n0 + i)" by (simp add: Suc.prems(7))
  have n: "n0 + i < 2 ^ k" using lt Suc.prems(5) by simp
  from Suc.prems(9) lt
  have rec: "enqueue_batch_fill ?q1 packets tail ec batch_size (Suc i) = Some q'"
    by (subst (asm) enqueue_batch_fill.simps) (simp add: Let_def split: option.splits)
  have IH: "slot_packets q' h (n0 + batch_size)
           = slot_packets ?q1 h (n0 + Suc i) @ take (batch_size - Suc i) (drop (ec + Suc i) packets)"
  proof (rule Suc.hyps(1))
    show "d = batch_size - Suc i" using Suc.hyps(2) by simp
    show "capacity_m ?q1 = 2 ^ k" by (simp add: Suc.prems(1))
    show "k \<le> 62" by (rule Suc.prems(2))
    show "mask_m ?q1 = capacity_m ?q1 - 1" by (simp add: Suc.prems(3))
    show "length (buffer_m ?q1) = 2 ^ k" by (simp add: Suc.prems(4))
    show "n0 + batch_size \<le> 2 ^ k" by (rule Suc.prems(5))
    show "Suc i \<le> batch_size" using lt by simp
    show "tail = h + of_nat n0" by (rule Suc.prems(7))
    show "ec + batch_size \<le> length packets" by (rule Suc.prems(8))
    show "enqueue_batch_fill ?q1 packets tail ec batch_size (Suc i) = Some q'" by (rule rec)
  qed
  have pub: "slot_packets (q\<lparr>buffer_m := (buffer_m q)[unat ((h + of_nat (n0 + i)) AND mask_m q) :=
                \<lparr>packet = ?p, seq = tail + of_nat i + 1\<rparr>]\<rparr>) h (Suc (n0 + i))
           = slot_packets q h (n0 + i) @ [?p]"
    using Suc.prems(1,2,3,4) n by (rule slot_packets_publish)
  have pub': "slot_packets ?q1 h (n0 + Suc i) = slot_packets q h (n0 + i) @ [packets ! (ec + i)]"
    using pub unfolding ti by (simp add: Packet_copy_assign_eq)
  have lt': "ec + i < length packets" using lt Suc.prems(8) by simp
  have "take (batch_size - i) (drop (ec + i) packets)
          = packets ! (ec + i) # take (batch_size - Suc i) (drop (ec + Suc i) packets)"
  proof -
    have "drop (ec + i) packets = packets ! (ec + i) # drop (Suc (ec + i)) packets"
      using lt' by (simp add: Cons_nth_drop_Suc)
    moreover have "batch_size - i = Suc (batch_size - Suc i)" using lt by simp
    ultimately show ?thesis by simp
  qed
  with IH pub' show ?case by simp
qed

lemma dequeue_batch_drain_packets:
  assumes "capacity_m q = 2 ^ k" "k \<le> 62" "mask_m q = capacity_m q - 1"
    "length (buffer_m q) = 2 ^ k"
    "batch_size \<le> n" "n \<le> 2 ^ k" "i \<le> batch_size"
    "dc + batch_size \<le> length out"
    "dequeue_batch_drain q out head dc batch_size i = Some (q', out')"
  shows "\<exists>X. length X = batch_size - i
           \<and> slot_packets q (head + of_nat i) (n - i)
                = X @ slot_packets q' (head + of_nat batch_size) (n - batch_size)
           \<and> out' = take (dc + i) out @ X @ drop (dc + batch_size) out"
  using assms
proof (induction "batch_size - i" arbitrary: q i out)
  case 0
  then have "i = batch_size" by simp
  with 0 show ?case
    by (subst (asm) dequeue_batch_drain.simps) (auto simp: slot_packets_def)
next
  case (Suc d)
  then have lt: "i < batch_size" by simp
  let ?hi = "head + of_nat i"
  let ?idx = "unat (?hi AND mask_m q)"
  let ?x = "packet (buffer_m q ! ?idx)"
  let ?slot = "\<lparr>packet = ?x\<lparr>data := 0, length_p := 0, id_p := 0\<rparr>, seq = ?hi + capacity_m q\<rparr>"
  let ?q1 = "q\<lparr>buffer_m := (buffer_m q)[?idx := ?slot]\<rparr>"
  let ?out1 = "out[dc + i := ?x]"
  have n: "0 < n - i" "n - i \<le> 2 ^ k" using lt Suc.prems(5,6) by simp_all
  from Suc.prems(9) lt
  have rec: "dequeue_batch_drain ?q1 ?out1 head dc batch_size (Suc i) = Some (q', out')"
    by (subst (asm) dequeue_batch_drain.simps)
       (simp add: Let_def Packet_move_assign_eq split: option.splits)
  have "\<exists>X. length X = batch_size - Suc i
           \<and> slot_packets ?q1 (head + of_nat (Suc i)) (n - Suc i)
                = X @ slot_packets q' (head + of_nat batch_size) (n - batch_size)
           \<and> out' = take (dc + Suc i) ?out1 @ X @ drop (dc + batch_size) ?out1"
  proof (rule Suc.hyps(1))
    show "d = batch_size - Suc i" using Suc.hyps(2) by simp
    show "capacity_m ?q1 = 2 ^ k" by (simp add: Suc.prems(1))
    show "k \<le> 62" by (rule Suc.prems(2))
    show "mask_m ?q1 = capacity_m ?q1 - 1" by (simp add: Suc.prems(3))
    show "length (buffer_m ?q1) = 2 ^ k" by (simp add: Suc.prems(4))
    show "batch_size \<le> n" by (rule Suc.prems(5))
    show "n \<le> 2 ^ k" by (rule Suc.prems(6))
    show "Suc i \<le> batch_size" using lt by simp
    show "dc + batch_size \<le> length ?out1" using Suc.prems(8) by simp
    show "dequeue_batch_drain ?q1 ?out1 head dc batch_size (Suc i) = Some (q', out')" by (rule rec)
  qed
  then obtain X where X: "length X = batch_size - Suc i"
    "slot_packets ?q1 (head + of_nat (Suc i)) (n - Suc i)
                = X @ slot_packets q' (head + of_nat batch_size) (n - batch_size)"
    "out' = take (dc + Suc i) ?out1 @ X @ drop (dc + batch_size) ?out1" by blast
  have con: "slot_packets q ?hi (n - i) = ?x # slot_packets ?q1 (?hi + 1) (n - i - 1)"
    using Suc.prems(1,2,3,4) n by (rule slot_packets_consume)
  have con': "slot_packets q ?hi (n - i) = ?x # slot_packets ?q1 (head + of_nat (Suc i)) (n - Suc i)"
    using con by (simp add: add.assoc add.commute[of 1])
  have lt': "dc + i < length out" using lt Suc.prems(8) by simp
  have t: "take (dc + Suc i) ?out1 = take (dc + i) out @ [?x]"
    using lt' by (simp add: take_Suc_conv_app_nth)
  have d: "drop (dc + batch_size) ?out1 = drop (dc + batch_size) out"
    using lt by simp
  show ?case
  proof (intro exI[of _ "?x # X"] conjI)
    show "length (?x # X) = batch_size - i" using X(1) lt by simp
    show "slot_packets q ?hi (n - i)
            = (?x # X) @ slot_packets q' (head + of_nat batch_size) (n - batch_size)"
      using con' X(2) by simp
    show "out' = take (dc + i) out @ (?x # X) @ drop (dc + batch_size) out"
      using X(3) t d by simp
  qed
qed

subsection \<open>Batch enqueue\<close>

lemma enqueue_batch_loop_exit:
  "\<not> ec < length packets \<or> tail_seq_m q - head_seq_m q \<ge> capacity_m q
   \<Longrightarrow> enqueue_batch_loop q packets spur b ec = Some (ec, q)"
  by (subst enqueue_batch_loop.simps) (auto simp: Let_def)

lemma unat_offset_add:
  assumes "unat ((t::64 word) - h) + b \<le> 2 ^ k" "k \<le> 62"
  shows "unat (t + of_nat b - h) = unat (t - h) + b"
proof -
  have p: "(2::nat) ^ k \<le> 2 ^ 62" using assms(2) by (intro power_increasing) simp_all
  with assms(1) have b: "b < 2 ^ 64" by simp
  then have ub: "unat (of_nat b :: 64 word) = b" by (simp add: unat_of_nat)
  from assms(1) p have "unat (t - h) + unat (of_nat b :: 64 word) < 2 ^ LENGTH(64)"
    by (simp add: ub)
  then have "unat (t - h + of_nat b) = unat (t - h) + unat (of_nat b :: 64 word)"
    using unat_add_lem[of "t - h" "of_nat b"] by blast
  then have u: "unat (t - h + of_nat b) = unat (t - h) + b" by (simp only: ub)
  have eq: "t + of_nat b - h = t - h + of_nat b" by simp
  show ?thesis unfolding eq by (rule u)
qed

lemma enqueue_batch_loop_ok:
  assumes inv: "queue_inv q"
  shows "\<exists>q'. enqueue_batch_loop q packets spur b ec
                 = Some (ec + min (length packets - ec) (unat (capacity_m q) - unat (size_q q)), q')
            \<and> queue_inv q'
            \<and> unat (size_q q')
                = unat (size_q q) + min (length packets - ec) (unat (capacity_m q) - unat (size_q q))
            \<and> stats_m q' = stats_m q \<and> enable_stats_m q' = enable_stats_m q
            \<and> capacity_m q' = capacity_m q \<and> head_seq_m q' = head_seq_m q
            \<and> contents q' = contents q
                  @ take (min (length packets - ec) (unat (capacity_m q) - unat (size_q q)))
                      (drop ec packets)"
proof -
  from inv obtain k where k: "1 \<le> k" "k \<le> 62" "capacity_m q = 2 ^ k"
    "mask_m q = capacity_m q - 1" "length (buffer_m q) = 2 ^ k"
    "unat (tail_seq_m q - head_seq_m q) \<le> 2 ^ k"
    "slots_ok q (head_seq_m q) (unat (tail_seq_m q - head_seq_m q))"
    by (rule queue_invD)
  let ?h = "head_seq_m q" and ?t = "tail_seq_m q"
  define n where "n = unat (?t - ?h)"
  define m where "m = min (length packets - ec) (2 ^ k - n)"
  have ucap: "unat (capacity_m q) = 2 ^ k" using k(2,3) by (simp add: unat_pow2)
  have usz: "unat (size_q q) = n" by (simp add: size_q_def n_def)
  have nle: "n \<le> 2 ^ k" using k(6) by (simp add: n_def)
  have goal_m: "min (length packets - ec) (unat (capacity_m q) - unat (size_q q)) = m"
    by (simp add: m_def ucap usz)
  have full_iff: "(capacity_m q \<le> ?t - ?h) = (2 ^ k \<le> n)"
    by (simp add: word_le_nat_alt ucap n_def)
  show ?thesis
  proof (cases "ec < length packets \<and> n < 2 ^ k")
    case False
    then have "m = 0" using nle by (auto simp: m_def)
    moreover have "enqueue_batch_loop q packets spur b ec = Some (ec, q)"
      using False by (intro enqueue_batch_loop_exit) (auto simp: full_iff)
    ultimately show ?thesis unfolding goal_m using inv by simp
  next
    case True
    then have mpos: "0 < m" by (simp add: m_def)
    have mle: "n + m \<le> 2 ^ k" using nle by (simp add: m_def)
    have notfull: "\<not> capacity_m q \<le> ?t - ?h" using True by (simp add: full_iff)
    have "?t - ?h \<le> capacity_m q" using nle by (simp add: word_le_nat_alt ucap n_def)
    then have av: "unat (capacity_m q - (?t - ?h)) = 2 ^ k - n"
      by (simp add: unat_sub ucap n_def)
    let ?q1 = "q\<lparr>tail_seq_m := ?t + of_nat m\<rparr>"
    have "\<exists>q'. enqueue_batch_fill ?q1 packets ?t ec m 0 = Some q'
              \<and> same_frame q' ?q1 \<and> slots_ok q' ?h (n + m)"
    proof (rule enqueue_batch_fill_ok)
      show "capacity_m ?q1 = 2 ^ k" by (simp add: k(3))
      show "k \<le> 62" by (rule k(2))
      show "mask_m ?q1 = capacity_m ?q1 - 1" by (simp add: k(4))
      show "length (buffer_m ?q1) = 2 ^ k" by (simp add: k(5))
      show "slots_ok ?q1 ?h (n + 0)" using k(7) by (simp add: slots_ok_def n_def)
      show "n + m \<le> 2 ^ k" by (rule mle)
      show "0 \<le> m" by simp
      show "?t = ?h + of_nat n" by (simp add: n_def)
    qed
    then obtain q2 where q2: "enqueue_batch_fill ?q1 packets ?t ec m 0 = Some q2"
      "same_frame q2 ?q1" "slots_ok q2 ?h (n + m)" by blast
    have szq: "unat (?t + of_nat m - ?h) = n + m"
      using unat_offset_add[of ?t ?h m k] mle k(2) by (simp add: n_def)
    have sz2: "unat (tail_seq_m q2 - head_seq_m q2) = n + m"
      using q2(2) szq by (simp add: same_frame_def)
    have inv2: "queue_inv q2"
      using k(1,2)
    proof (rule queue_invI)
      show "capacity_m q2 = 2 ^ k" using q2(2) by (simp add: same_frame_def k(3))
      show "mask_m q2 = capacity_m q2 - 1" using q2(2) by (simp add: same_frame_def k(4))
      show "length (buffer_m q2) = 2 ^ k" using q2(2) by (simp add: same_frame_def k(5))
      show "unat (tail_seq_m q2 - head_seq_m q2) \<le> 2 ^ k" using mle by (simp add: sz2)
      show "slots_ok q2 (head_seq_m q2) (unat (tail_seq_m q2 - head_seq_m q2))"
        using q2(3) unfolding sz2 using q2(2) by (simp add: same_frame_def)
    qed
    have exit2: "\<And>sp bb. enqueue_batch_loop q2 packets sp bb (ec + m) = Some (ec + m, q2)"
    proof (rule enqueue_batch_loop_exit)
      fix sp :: "bool list" and bb :: nat
      have "capacity_m q2 \<le> tail_seq_m q2 - head_seq_m q2" if "ec + m < length packets"
      proof -
        from that have "m = 2 ^ k - n" by (auto simp: m_def min_def)
        with nle have "n + m = 2 ^ k" by simp
        moreover have "unat (capacity_m q2) = 2 ^ k" using q2(2) ucap by (simp add: same_frame_def)
        ultimately show ?thesis by (simp add: word_le_nat_alt sz2)
      qed
      then show "\<not> ec + m < length packets \<or> capacity_m q2 \<le> tail_seq_m q2 - head_seq_m q2"
        by blast
    qed
    have "slot_packets q2 ?h (n + m)
            = slot_packets ?q1 ?h (n + 0) @ take (m - 0) (drop (ec + 0) packets)"
    proof (rule enqueue_batch_fill_packets)
      show "capacity_m ?q1 = 2 ^ k" by (simp add: k(3))
      show "k \<le> 62" by (rule k(2))
      show "mask_m ?q1 = capacity_m ?q1 - 1" by (simp add: k(4))
      show "length (buffer_m ?q1) = 2 ^ k" by (simp add: k(5))
      show "n + m \<le> 2 ^ k" by (rule mle)
      show "0 \<le> m" by simp
      show "?t = ?h + of_nat n" by (simp add: n_def)
      show "ec + m \<le> length packets" using True by (auto simp: m_def min_def)
      show "enqueue_batch_fill ?q1 packets ?t ec m 0 = Some q2" by (rule q2(1))
    qed
    then have "slot_packets q2 ?h (n + m) = slot_packets q ?h n @ take m (drop ec packets)"
      by (simp add: slot_packets_def)
    moreover have "contents q2 = slot_packets q2 ?h (n + m)"
      using q2(2) sz2 by (simp add: contents_def size_q_def same_frame_def)
    moreover have "contents q = slot_packets q ?h n"
      by (simp add: contents_def size_q_def n_def)
    ultimately have cont: "contents q2 = contents q @ take m (drop ec packets)" by simp
    have res: "queue_inv q2 \<and> unat (size_q q2) = unat (size_q q) + m
            \<and> stats_m q2 = stats_m q \<and> enable_stats_m q2 = enable_stats_m q
            \<and> capacity_m q2 = capacity_m q \<and> head_seq_m q2 = head_seq_m q
            \<and> contents q2 = contents q @ take m (drop ec packets)"
      using inv2 sz2 q2(2) cont by (simp add: size_q_def n_def same_frame_def)
    have "enqueue_batch_loop q packets spur b ec = Some (ec + m, q2)"
    proof (induction spur arbitrary: b)
      case Nil
      show ?case
        using True mpos notfull
        by (subst enqueue_batch_loop.simps)
           (simp add: Let_def av m_def[symmetric] next_spurious_def compare_exchange_weak_def
                      q2(1) exit2)
    next
      case (Cons f fs)
      show ?case
      proof (cases f)
        case T: True
        have "enqueue_batch_loop q packets (f # fs) b ec
                = enqueue_batch_loop q packets fs (snd (Backoff_call b)) ec"
          using True mpos notfull T
          by (subst enqueue_batch_loop.simps)
             (simp add: Let_def av m_def[symmetric] next_spurious_def compare_exchange_weak_def)
        then show ?thesis using Cons.IH by simp
      next
        case F: False
        show ?thesis
          using True mpos notfull F
          by (subst enqueue_batch_loop.simps)
             (simp add: Let_def av m_def[symmetric] next_spurious_def compare_exchange_weak_def
                        q2(1) exit2)
      qed
    qed
    with res show ?thesis unfolding goal_m by blast
  qed
qed

subsection \<open>Batch dequeue\<close>

lemma dequeue_batch_loop_exit:
  "\<not> dc < length packets \<or> head_seq_m q \<ge> tail_seq_m q
   \<Longrightarrow> dequeue_batch_loop q packets spur b dc = Some (dc, q, packets)"
  by (subst dequeue_batch_loop.simps) (auto simp: Let_def)

lemma unat_offset_sub:
  assumes "m \<le> unat ((t::64 word) - h)"
  shows "unat (t - (h + of_nat m)) = unat (t - h) - m"
proof -
  have "unat (t - h) < 2 ^ 64" using unsigned_less[of "t - h"] by simp
  with assms have "m < 2 ^ 64" by simp
  then have um: "unat (of_nat m :: 64 word) = m" by (simp add: unat_of_nat)
  with assms have "(of_nat m :: 64 word) \<le> t - h" by (simp add: word_le_nat_alt)
  then have "unat (t - h - of_nat m) = unat (t - h) - unat (of_nat m :: 64 word)"
    by (rule unat_sub)
  then have u: "unat (t - h - of_nat m) = unat (t - h) - m" by (simp only: um)
  have eq: "t - (h + of_nat m) = t - h - of_nat m" by simp
  show ?thesis unfolding eq by (rule u)
qed

lemma dequeue_batch_loop_ok:
  fixes packets :: "Packet list" and dc :: nat
  assumes inv: "queue_inv q"
  defines "m \<equiv> (if head_seq_m q \<ge> tail_seq_m q then 0
                  else min (length packets - dc) (unat (size_q q)))"
  shows "\<exists>q' packets'. dequeue_batch_loop q packets spur b dc = Some (dc + m, q', packets')
            \<and> queue_inv q' \<and> length packets' = length packets
            \<and> unat (size_q q') + m = unat (size_q q)
            \<and> stats_m q' = stats_m q \<and> enable_stats_m q' = enable_stats_m q
            \<and> capacity_m q' = capacity_m q \<and> tail_seq_m q' = tail_seq_m q
            \<and> packets' = take dc packets @ take m (contents q) @ drop (dc + m) packets
            \<and> contents q' = drop m (contents q)"
proof -
  from inv obtain k where k: "1 \<le> k" "k \<le> 62" "capacity_m q = 2 ^ k"
    "mask_m q = capacity_m q - 1" "length (buffer_m q) = 2 ^ k"
    "unat (tail_seq_m q - head_seq_m q) \<le> 2 ^ k"
    "slots_ok q (head_seq_m q) (unat (tail_seq_m q - head_seq_m q))"
    by (rule queue_invD)
  let ?h = "head_seq_m q" and ?t = "tail_seq_m q"
  define n where "n = unat (?t - ?h)"
  have usz: "unat (size_q q) = n" by (simp add: size_q_def n_def)
  have nle: "n \<le> 2 ^ k" using k(6) by (simp add: n_def)
  show ?thesis
  proof (cases "dc < length packets \<and> \<not> ?h \<ge> ?t")
    case False
    then have "m = 0" by (auto simp: m_def)
    moreover have "dequeue_batch_loop q packets spur b dc = Some (dc, q, packets)"
      using False by (intro dequeue_batch_loop_exit) auto
    ultimately show ?thesis using inv by simp
  next
    case True
    then have "?t \<noteq> ?h" by auto
    then have npos: "0 < n" by (simp add: n_def unat_gt_0)
    have m: "m = min (length packets - dc) n" using True by (simp add: m_def usz)
    have mpos: "0 < m" using True npos by (simp add: m)
    have mle: "m \<le> n" by (simp add: m)
    have notempty: "\<not> ?t \<le> ?h" using True by simp
    let ?q1 = "q\<lparr>head_seq_m := ?h + of_nat m\<rparr>"
    have "\<exists>q' out'. dequeue_batch_drain ?q1 packets ?h dc m 0 = Some (q', out')
              \<and> same_frame q' ?q1 \<and> slots_ok q' (?h + of_nat m) (n - m)
              \<and> length out' = length packets"
    proof (rule dequeue_batch_drain_ok)
      show "capacity_m ?q1 = 2 ^ k" by (simp add: k(3))
      show "k \<le> 62" by (rule k(2))
      show "mask_m ?q1 = capacity_m ?q1 - 1" by (simp add: k(4))
      show "length (buffer_m ?q1) = 2 ^ k" by (simp add: k(5))
      show "slots_ok ?q1 (?h + of_nat 0) (n - 0)" using k(7) by (simp add: slots_ok_def n_def)
      show "m \<le> n" by (rule mle)
      show "n \<le> 2 ^ k" by (rule nle)
      show "0 \<le> m" by simp
    qed
    then obtain q2 out2 where q2: "dequeue_batch_drain ?q1 packets ?h dc m 0 = Some (q2, out2)"
      "same_frame q2 ?q1" "slots_ok q2 (?h + of_nat m) (n - m)"
      "length out2 = length packets" by blast
    have szq: "unat (?t - (?h + of_nat m)) = n - m"
      using unat_offset_sub[of m ?t ?h] mle by (simp add: n_def)
    have sz2: "unat (tail_seq_m q2 - head_seq_m q2) = n - m"
      using q2(2) szq by (simp add: same_frame_def)
    have inv2: "queue_inv q2"
      using k(1,2)
    proof (rule queue_invI)
      show "capacity_m q2 = 2 ^ k" using q2(2) by (simp add: same_frame_def k(3))
      show "mask_m q2 = capacity_m q2 - 1" using q2(2) by (simp add: same_frame_def k(4))
      show "length (buffer_m q2) = 2 ^ k" using q2(2) by (simp add: same_frame_def k(5))
      show "unat (tail_seq_m q2 - head_seq_m q2) \<le> 2 ^ k" using nle by (simp add: sz2)
      show "slots_ok q2 (head_seq_m q2) (unat (tail_seq_m q2 - head_seq_m q2))"
        using q2(3) unfolding sz2 using q2(2) by (simp add: same_frame_def)
    qed
    have exit2: "\<And>sp bb. dequeue_batch_loop q2 out2 sp bb (dc + m) = Some (dc + m, q2, out2)"
    proof (rule dequeue_batch_loop_exit)
      fix sp :: "bool list" and bb :: nat
      have "tail_seq_m q2 \<le> head_seq_m q2" if "dc + m < length out2"
      proof -
        from that have "m = n" by (auto simp: m q2(4) min_def)
        then have "unat (tail_seq_m q2 - head_seq_m q2) = 0" by (simp add: sz2)
        then have "tail_seq_m q2 = head_seq_m q2" by (simp add: unat_eq_zero)
        then show ?thesis by simp
      qed
      then show "\<not> dc + m < length out2 \<or> tail_seq_m q2 \<le> head_seq_m q2" by blast
    qed
    have "\<exists>X. length X = m - 0
           \<and> slot_packets ?q1 (?h + of_nat 0) (n - 0)
                = X @ slot_packets q2 (?h + of_nat m) (n - m)
           \<and> out2 = take (dc + 0) packets @ X @ drop (dc + m) packets"
    proof (rule dequeue_batch_drain_packets)
      show "capacity_m ?q1 = 2 ^ k" by (simp add: k(3))
      show "k \<le> 62" by (rule k(2))
      show "mask_m ?q1 = capacity_m ?q1 - 1" by (simp add: k(4))
      show "length (buffer_m ?q1) = 2 ^ k" by (simp add: k(5))
      show "m \<le> n" by (rule mle)
      show "n \<le> 2 ^ k" by (rule nle)
      show "0 \<le> m" by simp
      show "dc + m \<le> length packets" using True by (auto simp: m min_def)
      show "dequeue_batch_drain ?q1 packets ?h dc m 0 = Some (q2, out2)" by (rule q2(1))
    qed
    then obtain X where X: "length X = m"
      "slot_packets ?q1 ?h n = X @ slot_packets q2 (?h + of_nat m) (n - m)"
      "out2 = take dc packets @ X @ drop (dc + m) packets" by auto
    have cq: "contents q = slot_packets ?q1 ?h n"
      by (simp add: contents_def size_q_def n_def slot_packets_def)
    have cq2: "contents q2 = slot_packets q2 (?h + of_nat m) (n - m)"
      using q2(2) sz2 by (simp add: contents_def size_q_def same_frame_def)
    have cont: "take m (contents q) = X" "drop m (contents q) = contents q2"
      using X(1,2) by (simp_all add: cq cq2)
    have res: "queue_inv q2 \<and> length out2 = length packets
            \<and> unat (size_q q2) + m = unat (size_q q)
            \<and> stats_m q2 = stats_m q \<and> enable_stats_m q2 = enable_stats_m q
            \<and> capacity_m q2 = capacity_m q \<and> tail_seq_m q2 = tail_seq_m q
            \<and> out2 = take dc packets @ take m (contents q) @ drop (dc + m) packets
            \<and> contents q2 = drop m (contents q)"
      using inv2 sz2 q2(2,4) mle X(3) cont by (simp add: size_q_def n_def same_frame_def)
    have "dequeue_batch_loop q packets spur b dc = Some (dc + m, q2, out2)"
    proof (induction spur arbitrary: b)
      case Nil
      show ?case
        using True mpos notempty
        by (subst dequeue_batch_loop.simps)
           (simp add: Let_def n_def[symmetric] m[symmetric] next_spurious_def
                      compare_exchange_weak_def q2(1) exit2)
    next
      case (Cons f fs)
      show ?case
      proof (cases f)
        case T: True
        have "dequeue_batch_loop q packets (f # fs) b dc
                = dequeue_batch_loop q packets fs (snd (Backoff_call b)) dc"
          using True mpos notempty T
          by (subst dequeue_batch_loop.simps)
             (simp add: Let_def n_def[symmetric] m[symmetric] next_spurious_def
                        compare_exchange_weak_def)
        then show ?thesis using Cons.IH by simp
      next
        case F: False
        show ?thesis
          using True mpos notempty F
          by (subst dequeue_batch_loop.simps)
             (simp add: Let_def n_def[symmetric] m[symmetric] next_spurious_def
                        compare_exchange_weak_def q2(1) exit2)
      qed
    qed
    with res show ?thesis by blast
  qed
qed

subsection \<open>The single operations in a sequential state\<close>

lemma enqueue_loop_inv:
  assumes inv: "queue_inv q"
  shows "enqueue_loop by_move q src spur b (tail_seq_m q) =
     Some (if size_q q < capacity_m q then
             (True,
              count_stat (enqueue_successes_update (\<lambda>n. n + 1))
                (q\<lparr>tail_seq_m := tail_seq_m q + 1,
                   buffer_m := (buffer_m q)[unat (tail_seq_m q AND mask_m q) :=
                                  \<lparr>packet = src, seq = tail_seq_m q + 1\<rparr>]\<rparr>),
              if by_move then src\<lparr>data := 0, length_p := 0, id_p := 0\<rparr> else src)
           else (False, q, src))"
  using enqueue_loop_not_full[OF inv] enqueue_loop_full[OF inv] by simp

lemma dequeue_loop_inv:
  assumes inv: "queue_inv q"
  shows "dequeue_loop q spur b (head_seq_m q) =
     Some (if size_q q \<noteq> 0 then
             (Some (packet (buffer_m q ! unat (head_seq_m q AND mask_m q))),
              count_stat (dequeue_successes_update (\<lambda>n. n + 1))
                (q\<lparr>head_seq_m := head_seq_m q + 1,
                   buffer_m := (buffer_m q)[unat (head_seq_m q AND mask_m q) :=
                      \<lparr>packet = (packet (buffer_m q ! unat (head_seq_m q AND mask_m q)))
                                   \<lparr>data := 0, length_p := 0, id_p := 0\<rparr>,
                       seq = head_seq_m q + capacity_m q\<rparr>]\<rparr>))
           else (None, q))"
  using dequeue_loop_nonempty[OF inv] dequeue_loop_empty[OF inv] by simp

lemma size_q_count_stat: "size_q (count_stat f q) = size_q q"
  by (simp add: size_q_def count_stat_def)

text \<open>What a single enqueue does to a queue in a sequential state.\<close>

lemma enqueue_move_inv:
  assumes inv: "queue_inv q"
  shows "\<exists>q'. enqueue_move q src spur
              = Some (size_q q < capacity_m q, q',
                      if size_q q < capacity_m q
                      then src\<lparr>data := 0, length_p := 0, id_p := 0\<rparr> else src)
          \<and> queue_inv q'
          \<and> capacity_m q' = capacity_m q \<and> enable_stats_m q' = enable_stats_m q
          \<and> unat (size_q q') = unat (size_q q) + (if size_q q < capacity_m q then 1 else 0)
          \<and> (\<not> size_q q < capacity_m q \<longrightarrow>
                head_seq_m q' = head_seq_m q \<and> tail_seq_m q' = tail_seq_m q
                \<and> buffer_m q' = buffer_m q)
          \<and> stats_m q' =
               (if enable_stats_m q then
                  (stats_m q)\<lparr>enqueue_attempts := enqueue_attempts (stats_m q) + 1,
                    enqueue_successes := enqueue_successes (stats_m q)
                       + (if size_q q < capacity_m q then 1 else 0)\<rparr>
                else stats_m q)"
proof -
  let ?q1 = "count_stat (enqueue_attempts_update (\<lambda>n. n + 1)) q"
  have inv1: "queue_inv ?q1" using inv by (simp add: queue_inv_count_stat)
  have sz1: "size_q ?q1 = size_q q" by (rule size_q_count_stat)
  note loop = enqueue_loop_inv[OF inv1, of True src spur 0]
  show ?thesis
  proof (cases "size_q q < capacity_m q")
    case True
    then have nf1: "size_q ?q1 < capacity_m ?q1" by (simp add: sz1 count_stat_fields)
    note after = queue_inv_after_enqueue[OF inv1 nf1, of src]
    show ?thesis
      using True loop after
      by (simp add: enqueue_move_def Let_def sz1 count_stat_fields queue_inv_count_stat
                    size_q_count_stat)
         (simp add: count_stat_def)
  next
    case False
    then show ?thesis
      using loop inv1
      by (simp add: enqueue_move_def Let_def sz1 count_stat_fields)
         (simp add: count_stat_def)
  qed
qed

lemma enqueue_inv:
  assumes inv: "queue_inv q"
  shows "\<exists>q'. enqueue q src spur = Some (size_q q < capacity_m q, q')
          \<and> queue_inv q'
          \<and> capacity_m q' = capacity_m q \<and> enable_stats_m q' = enable_stats_m q
          \<and> unat (size_q q') = unat (size_q q) + (if size_q q < capacity_m q then 1 else 0)
          \<and> (\<not> size_q q < capacity_m q \<longrightarrow>
                head_seq_m q' = head_seq_m q \<and> tail_seq_m q' = tail_seq_m q
                \<and> buffer_m q' = buffer_m q)
          \<and> stats_m q' =
               (if enable_stats_m q then
                  (stats_m q)\<lparr>enqueue_attempts := enqueue_attempts (stats_m q) + 1,
                    enqueue_successes := enqueue_successes (stats_m q)
                       + (if size_q q < capacity_m q then 1 else 0)\<rparr>
                else stats_m q)"
proof -
  let ?q1 = "count_stat (enqueue_attempts_update (\<lambda>n. n + 1)) q"
  have inv1: "queue_inv ?q1" using inv by (simp add: queue_inv_count_stat)
  have sz1: "size_q ?q1 = size_q q" by (rule size_q_count_stat)
  note loop = enqueue_loop_inv[OF inv1, of False src spur 0]
  show ?thesis
  proof (cases "size_q q < capacity_m q")
    case True
    then have nf1: "size_q ?q1 < capacity_m ?q1" by (simp add: sz1 count_stat_fields)
    note after = queue_inv_after_enqueue[OF inv1 nf1, of src]
    show ?thesis
      using True loop after
      by (simp add: enqueue_def Let_def sz1 count_stat_fields queue_inv_count_stat
                    size_q_count_stat)
         (simp add: count_stat_def)
  next
    case False
    then show ?thesis
      using loop inv1
      by (simp add: enqueue_def Let_def sz1 count_stat_fields)
         (simp add: count_stat_def)
  qed
qed

lemma dequeue_inv:
  assumes inv: "queue_inv q"
  shows "\<exists>q'. dequeue q spur
              = Some (if size_q q \<noteq> 0
                      then Some (packet (buffer_m q ! unat (head_seq_m q AND mask_m q)))
                      else None, q')
          \<and> queue_inv q'
          \<and> capacity_m q' = capacity_m q \<and> enable_stats_m q' = enable_stats_m q
          \<and> unat (size_q q') + (if size_q q \<noteq> 0 then 1 else 0) = unat (size_q q)
          \<and> (size_q q = 0 \<longrightarrow>
                head_seq_m q' = head_seq_m q \<and> tail_seq_m q' = tail_seq_m q
                \<and> buffer_m q' = buffer_m q)
          \<and> stats_m q' =
               (if enable_stats_m q then
                  (stats_m q)\<lparr>dequeue_attempts := dequeue_attempts (stats_m q) + 1,
                    dequeue_successes := dequeue_successes (stats_m q)
                       + (if size_q q \<noteq> 0 then 1 else 0)\<rparr>
                else stats_m q)"
proof -
  let ?q1 = "count_stat (dequeue_attempts_update (\<lambda>n. n + 1)) q"
  have inv1: "queue_inv ?q1" using inv by (simp add: queue_inv_count_stat)
  have sz1: "size_q ?q1 = size_q q" by (rule size_q_count_stat)
  note loop = dequeue_loop_inv[OF inv1, of spur 0]
  show ?thesis
  proof (cases "size_q q \<noteq> 0")
    case True
    then have ne1: "size_q ?q1 \<noteq> 0" by (simp add: sz1)
    note after = queue_inv_after_dequeue[OF inv1 ne1,
        of "(packet (buffer_m q ! unat (head_seq_m q AND mask_m q)))
               \<lparr>data := 0, length_p := 0, id_p := 0\<rparr>"]
    show ?thesis
      using True loop after
      by (simp add: dequeue_def Let_def sz1 count_stat_fields queue_inv_count_stat
                    size_q_count_stat)
         (simp add: count_stat_def)
  next
    case False
    then show ?thesis
      using loop inv1
      by (simp add: dequeue_def Let_def sz1 count_stat_fields)
         (simp add: count_stat_def)
  qed
qed

subsection \<open>Try variants and batches in a sequential state\<close>

lemma tail_slot_seq:
  assumes inv: "queue_inv q"
  shows "seq (buffer_m q ! unat (tail_seq_m q AND mask_m q))
           = (if size_q q < capacity_m q then tail_seq_m q else head_seq_m q + 1)"
    and "\<not> size_q q < capacity_m q \<Longrightarrow> tail_seq_m q \<noteq> head_seq_m q + 1"
proof -
  from inv obtain k where k: "1 \<le> k" "k \<le> 62" "capacity_m q = 2 ^ k"
    "mask_m q = capacity_m q - 1" "length (buffer_m q) = 2 ^ k"
    "unat (tail_seq_m q - head_seq_m q) \<le> 2 ^ k"
    "slots_ok q (head_seq_m q) (unat (tail_seq_m q - head_seq_m q))"
    by (rule queue_invD)
  have k64: "k < 64" using k(2) by simp
  let ?h = "head_seq_m q" and ?t = "tail_seq_m q"
  let ?n = "unat (?t - ?h)"
  have full_eq: "?t - ?h = 2 ^ k" if "\<not> size_q q < capacity_m q"
  proof -
    from inv have "size_q q \<le> capacity_m q" by (simp add: queue_inv_def)
    with that show ?thesis by (simp add: size_q_def k(3))
  qed
  show "seq (buffer_m q ! unat (?t AND mask_m q))
           = (if size_q q < capacity_m q then ?t else ?h + 1)"
  proof (cases "size_q q < capacity_m q")
    case True
    then have n: "?n < 2 ^ k"
      using k(2,3) by (simp add: size_q_def word_less_nat_alt unat_pow2)
    have "seq (buffer_m q ! unat ((?h + of_nat ?n) AND mask_m q)) = ?h + of_nat ?n"
      using k(3,2,4,5,7) n by (rule slots_ok_publish(1))
    with True show ?thesis by simp
  next
    case False
    then have sz: "?t - ?h = 2 ^ k" by (rule full_eq)
    then have n: "?n = 2 ^ k" using k64 by (simp add: unat_pow2)
    have t: "?t = ?h + 2 ^ k" using sz by (metis diff_add_cancel add.commute)
    have "unat (?t AND mask_m q) = unat ?t mod 2 ^ k"
      using k64 by (simp add: k(3,4) unat_and_mask_pow2)
    also have "\<dots> = (unat ?h + unat ((2::64 word) ^ k)) mod 2 ^ k"
      unfolding t using k64 by (intro unat_add_mod_pow2) simp
    also have "\<dots> = unat ?h mod 2 ^ k" using k64 by (simp add: unat_pow2)
    also have "\<dots> = unat (?h AND mask_m q)"
      using k64 by (simp add: k(3,4) unat_and_mask_pow2)
    finally have idx: "unat (?t AND mask_m q) = unat (?h AND mask_m q)" .
    have "seq (buffer_m q ! unat (?h AND mask_m q)) = ?h + 1"
      using k(3,2,4,5,7) by (rule slots_ok_consume(1)) (simp_all add: n)
    with False show ?thesis by (simp only: idx) simp
  qed
  show "?t \<noteq> ?h + 1" if "\<not> size_q q < capacity_m q"
  proof
    assume "?t = ?h + 1"
    then have "?t - ?h = 1" by simp
    with full_eq[OF that] have "(2::64 word) ^ k = 1" by simp
    then have "unat ((2::64 word) ^ k) = 1" by simp
    then have "(2::nat) ^ k = 1" using k64 by (simp add: unat_pow2)
    with k(1) show False by simp
  qed
qed

lemma head_slot_seq:
  assumes inv: "queue_inv q"
  shows "seq (buffer_m q ! unat (head_seq_m q AND mask_m q))
           = (if size_q q \<noteq> 0 then head_seq_m q + 1 else head_seq_m q)"
proof -
  from inv obtain k where k: "1 \<le> k" "k \<le> 62" "capacity_m q = 2 ^ k"
    "mask_m q = capacity_m q - 1" "length (buffer_m q) = 2 ^ k"
    "unat (tail_seq_m q - head_seq_m q) \<le> 2 ^ k"
    "slots_ok q (head_seq_m q) (unat (tail_seq_m q - head_seq_m q))"
    by (rule queue_invD)
  let ?h = "head_seq_m q" and ?t = "tail_seq_m q"
  show ?thesis
  proof (cases "size_q q \<noteq> 0")
    case True
    then have n: "0 < unat (?t - ?h)" by (simp add: size_q_def unat_gt_0)
    have "seq (buffer_m q ! unat (?h AND mask_m q)) = ?h + 1"
      using k(3,2,4,5,7) n k(6) by (rule slots_ok_consume(1))
    with True show ?thesis by simp
  next
    case False
    then have th: "?t = ?h" by (simp add: size_q_def)
    have ok0: "slots_ok q ?h 0" using k(7) by (simp add: th)
    have "seq (buffer_m q ! unat ((?h + of_nat 0) AND mask_m q)) = ?h + of_nat 0"
      using k(3,2,4,5) ok0 by (rule slots_ok_publish(1)) simp
    with False show ?thesis by simp
  qed
qed

lemma try_enqueue_inv:
  assumes inv: "queue_inv q"
  shows "try_enqueue q src =
     (if size_q q < capacity_m q then
        (True, q\<lparr>tail_seq_m := tail_seq_m q + 1,
                 buffer_m := (buffer_m q)[unat (tail_seq_m q AND mask_m q) :=
                                \<lparr>packet = src, seq = tail_seq_m q + 1\<rparr>]\<rparr>)
      else (False, q))"
  using tail_slot_seq[OF inv]
  by (cases "size_q q < capacity_m q")
     (auto simp add: try_enqueue_def Let_def compare_exchange_strong_def Packet_copy_assign_eq)

lemma try_dequeue_inv:
  assumes inv: "queue_inv q"
  shows "try_dequeue q =
     (if size_q q \<noteq> 0 then
        (Some (packet (buffer_m q ! unat (head_seq_m q AND mask_m q))),
         q\<lparr>head_seq_m := head_seq_m q + 1,
           buffer_m := (buffer_m q)[unat (head_seq_m q AND mask_m q) :=
              \<lparr>packet = (packet (buffer_m q ! unat (head_seq_m q AND mask_m q)))
                           \<lparr>data := 0, length_p := 0, id_p := 0\<rparr>,
               seq = head_seq_m q + capacity_m q\<rparr>]\<rparr>)
      else (None, q))"
  using head_slot_seq[OF inv]
  by (cases "size_q q \<noteq> 0")
     (auto simp add: try_dequeue_def Let_def compare_exchange_strong_def Packet_move_ctor_eq)

lemma enqueue_batch_inv:
  assumes inv: "queue_inv q"
  shows "\<exists>q'. enqueue_batch q ps spur
              = Some (min (length ps) (unat (capacity_m q) - unat (size_q q)), q')
          \<and> queue_inv q'
          \<and> capacity_m q' = capacity_m q \<and> enable_stats_m q' = enable_stats_m q
          \<and> unat (size_q q')
               = unat (size_q q) + min (length ps) (unat (capacity_m q) - unat (size_q q))
          \<and> head_seq_m q' = head_seq_m q
          \<and> (\<not> size_q q < capacity_m q \<longrightarrow>
                tail_seq_m q' = tail_seq_m q \<and> buffer_m q' = buffer_m q)
          \<and> stats_m q' =
               (if enable_stats_m q \<and> ps \<noteq> [] then
                  (stats_m q)\<lparr>batch_enqueues := batch_enqueues (stats_m q) + 1\<rparr>
                else stats_m q)
          \<and> contents q' = contents q
                @ take (min (length ps) (unat (capacity_m q) - unat (size_q q))) ps"
proof (cases "ps = []")
  case True
  then show ?thesis using inv by (simp add: enqueue_batch_def)
next
  case False
  let ?q1 = "count_stat (batch_enqueues_update (\<lambda>n. n + 1)) q"
  have inv1: "queue_inv ?q1" using inv by (simp add: queue_inv_count_stat)
  from enqueue_batch_loop_ok[OF inv1, of ps spur 0 0]
  obtain q' where q': "enqueue_batch_loop ?q1 ps spur 0 0
        = Some (min (length ps) (unat (capacity_m q) - unat (size_q q)), q')"
    "queue_inv q'"
    "unat (size_q q') = unat (size_q q) + min (length ps) (unat (capacity_m q) - unat (size_q q))"
    "stats_m q' = stats_m ?q1" "enable_stats_m q' = enable_stats_m q"
    "capacity_m q' = capacity_m q" "head_seq_m q' = head_seq_m q"
    "contents q' = contents q
        @ take (min (length ps) (unat (capacity_m q) - unat (size_q q))) ps"
    by (auto simp: count_stat_fields size_q_count_stat contents_count_stat)
  have frame: "tail_seq_m q' = tail_seq_m q \<and> buffer_m q' = buffer_m q"
    if "\<not> size_q q < capacity_m q"
  proof -
    from that have "capacity_m ?q1 \<le> tail_seq_m ?q1 - head_seq_m ?q1"
      by (simp add: count_stat_fields size_q_def)
    then have "enqueue_batch_loop ?q1 ps spur 0 0 = Some (0, ?q1)"
      by (intro enqueue_batch_loop_exit) simp
    with q'(1) have "q' = ?q1" by simp
    then show ?thesis by (simp add: count_stat_fields)
  qed
  show ?thesis
    using False q' frame by (simp add: enqueue_batch_def) (simp add: count_stat_def)
qed

lemma dequeue_batch_inv:
  assumes inv: "queue_inv q"
  shows "\<exists>q' ps'. dequeue_batch q ps spur
              = Some (if head_seq_m q \<ge> tail_seq_m q then 0
                      else min (length ps) (unat (size_q q)), q', ps')
          \<and> queue_inv q' \<and> length ps' = length ps
          \<and> capacity_m q' = capacity_m q \<and> enable_stats_m q' = enable_stats_m q
          \<and> unat (size_q q') + (if head_seq_m q \<ge> tail_seq_m q then 0
                      else min (length ps) (unat (size_q q))) = unat (size_q q)
          \<and> tail_seq_m q' = tail_seq_m q
          \<and> stats_m q' =
               (if enable_stats_m q \<and> ps \<noteq> [] then
                  (stats_m q)\<lparr>batch_dequeues := batch_dequeues (stats_m q) + 1\<rparr>
                else stats_m q)
          \<and> ps' = take (if head_seq_m q \<ge> tail_seq_m q then 0
                         else min (length ps) (unat (size_q q))) (contents q)
                  @ drop (if head_seq_m q \<ge> tail_seq_m q then 0
                          else min (length ps) (unat (size_q q))) ps
          \<and> contents q' = drop (if head_seq_m q \<ge> tail_seq_m q then 0
                                 else min (length ps) (unat (size_q q))) (contents q)"
proof (cases "ps = []")
  case True
  then show ?thesis using inv by (simp add: dequeue_batch_def)
next
  case False
  let ?q1 = "count_stat (batch_dequeues_update (\<lambda>n. n + 1)) q"
  let ?m = "if head_seq_m q \<ge> tail_seq_m q then 0 else min (length ps) (unat (size_q q))"
  have inv1: "queue_inv ?q1" using inv by (simp add: queue_inv_count_stat)
  note L = dequeue_batch_loop_ok[OF inv1, where packets=ps and spur=spur and b=0 and dc=0,
      unfolded count_stat_fields size_q_count_stat contents_count_stat
        add_0 diff_zero take_0 append_Nil]
  from L obtain q' ps' where q': "dequeue_batch_loop ?q1 ps spur 0 0 = Some (?m, q', ps')"
    "queue_inv q'" "length ps' = length ps"
    "unat (size_q q') + ?m = unat (size_q q)"
    "stats_m q' = stats_m ?q1" "enable_stats_m q' = enable_stats_m q"
    "capacity_m q' = capacity_m q" "tail_seq_m q' = tail_seq_m q"
    "ps' = take ?m (contents q) @ drop ?m ps"
    "contents q' = drop ?m (contents q)"
    by blast
  have st: "stats_m ?q1 = (if enable_stats_m q \<and> ps \<noteq> [] then
                  (stats_m q)\<lparr>batch_dequeues := batch_dequeues (stats_m q) + 1\<rparr>
                else stats_m q)"
    using False by (simp add: count_stat_def)
  have eq: "dequeue_batch q ps spur = Some (?m, q', ps')"
    using False q'(1) by (simp add: dequeue_batch_def)
  from eq q'(2,3,7,6,4,8) q'(5)[unfolded st] q'(9,10) show ?thesis by blast
qed

subsection \<open>Calls and executions\<close>

lemma construct_inv:
  assumes "construct n st = Inr q0"
  shows "queue_inv q0" and "head_seq_m q0 = 0" and "tail_seq_m q0 = 0"
    and "stats_m q0 = QueueStats_init" and "enable_stats_m q0 = st"
    and "unat (capacity_m q0) = max 2 (next_power_of_two (unat n))"
    and "\<forall>i < unat (capacity_m q0). buffer_m q0 ! i = \<lparr>packet = Packet_default, seq = of_nat i\<rparr>"
proof -
  let ?c = "round_up_to_power_of_two n"
  from assms have n0: "n \<noteq> 0" and lt: "unat ?c < 2 ^ 63"
    and q0: "q0 = \<lparr>capacity_m = ?c, mask_m = ?c - 1,
          buffer_m = init_seq_loop (replicate (unat ?c) Slot_init) ?c 0,
          head_seq_m = 0, tail_seq_m = 0,
          stats_m = QueueStats_init, enable_stats_m = st\<rparr>"
    by (auto simp: construct_eq split: if_splits)
  from round_up_cases[OF n0 lt] obtain k where k: "1 \<le> k" "k \<le> 62" "?c = 2 ^ k"
    "unat ?c = max 2 (next_power_of_two (unat n))" by blast
  have uc: "unat ?c = 2 ^ k" using k(2,3) by (simp add: unat_pow2)
  show "head_seq_m q0 = 0" "tail_seq_m q0 = 0" "stats_m q0 = QueueStats_init"
    "enable_stats_m q0 = st" by (simp_all add: q0)
  show "unat (capacity_m q0) = max 2 (next_power_of_two (unat n))" using k(4) by (simp add: q0)
  have nth: "buffer_m q0 ! i = \<lparr>packet = Packet_default, seq = of_nat i\<rparr>" if "i < 2 ^ k" for i
    using that by (simp add: q0 init_seq_loop_nth uc Slot_init_def)
  then show "\<forall>i < unat (capacity_m q0). buffer_m q0 ! i = \<lparr>packet = Packet_default, seq = of_nat i\<rparr>"
    by (simp add: q0 uc)
  have len: "length (buffer_m q0) = 2 ^ k" by (simp add: q0 init_seq_loop_length uc)
  have cap: "capacity_m q0 = 2 ^ k" by (simp add: q0 k(3))
  have mask: "mask_m q0 = capacity_m q0 - 1" by (simp add: q0)
  have "slots_ok q0 0 0"
    unfolding slots_ok_nat[OF cap k(2) mask] by (simp add: nth)
  then have ok: "slots_ok q0 (head_seq_m q0) (unat (tail_seq_m q0 - head_seq_m q0))"
    by (simp add: q0)
  show "queue_inv q0"
    using k(1,2) cap mask len _ ok by (rule queue_invI) (simp add: q0)
qed

text \<open>Each call, from a state of the invariant.\<close>

lemma queue_inv_reset_stats: "queue_inv (reset_stats q) = queue_inv q"
  by (simp add: reset_stats_def queue_inv_def size_q_def slots_ok_def)

lemma exec_call_invI:
  assumes "exec_call c q = Some (out, q')" "queue_inv q'" "capacity_m q' = capacity_m q"
    "enable_stats_m q' = enable_stats_m q"
    "int (unat (size_q q')) = int (unat (size_q q)) + resident_delta out"
  shows "\<exists>out q'. exec_call c q = Some (out, q') \<and> queue_inv q'
           \<and> capacity_m q' = capacity_m q \<and> enable_stats_m q' = enable_stats_m q
           \<and> int (unat (size_q q')) = int (unat (size_q q)) + resident_delta out"
  using assms by blast

lemma exec_call_inv:
  assumes inv: "queue_inv q"
  shows "\<exists>out q'. exec_call c q = Some (out, q') \<and> queue_inv q'
           \<and> capacity_m q' = capacity_m q \<and> enable_stats_m q' = enable_stats_m q
           \<and> int (unat (size_q q')) = int (unat (size_q q)) + resident_delta out"
proof (cases c)
  case (Enqueue p spur)
  from enqueue_inv[OF inv, of p spur] obtain q' where
    q': "enqueue q p spur = Some (size_q q < capacity_m q, q')" "queue_inv q'"
      "capacity_m q' = capacity_m q" "enable_stats_m q' = enable_stats_m q"
      "unat (size_q q') = unat (size_q q) + (if size_q q < capacity_m q then 1 else 0)"
    by blast
  from q'(5) have "int (unat (size_q q'))
      = int (unat (size_q q) + (if size_q q < capacity_m q then 1 else 0))"
    by (rule arg_cong)
  then have "int (unat (size_q q'))
      = int (unat (size_q q)) + resident_delta (Enqueued (size_q q < capacity_m q))"
    by simp
  with q'(1-4) show ?thesis
    unfolding Enqueue by (intro exec_call_invI[of _ _ "Enqueued (size_q q < capacity_m q)" q']) simp_all
next
  case (Enqueue_move p spur)
  from enqueue_move_inv[OF inv, of p spur] obtain q' where
    q': "enqueue_move q p spur = Some (size_q q < capacity_m q, q',
                      if size_q q < capacity_m q
                      then p\<lparr>data := 0, length_p := 0, id_p := 0\<rparr> else p)" "queue_inv q'"
      "capacity_m q' = capacity_m q" "enable_stats_m q' = enable_stats_m q"
      "unat (size_q q') = unat (size_q q) + (if size_q q < capacity_m q then 1 else 0)"
    by blast
  from q'(5) have "int (unat (size_q q'))
      = int (unat (size_q q) + (if size_q q < capacity_m q then 1 else 0))"
    by (rule arg_cong)
  then have "int (unat (size_q q'))
      = int (unat (size_q q)) + resident_delta (Enqueued (size_q q < capacity_m q))"
    by simp
  with q'(1-4) show ?thesis
    unfolding Enqueue_move
    by (intro exec_call_invI[of _ _ "Enqueued (size_q q < capacity_m q)" q']) simp_all
next
  case (Dequeue spur)
  let ?r = "if size_q q \<noteq> 0
            then Some (packet (buffer_m q ! unat (head_seq_m q AND mask_m q))) else None"
  from dequeue_inv[OF inv, of spur] obtain q' where
    q': "dequeue q spur = Some (?r, q')" "queue_inv q'"
      "capacity_m q' = capacity_m q" "enable_stats_m q' = enable_stats_m q"
      "unat (size_q q') + (if size_q q \<noteq> 0 then 1 else 0) = unat (size_q q)"
    by blast
  from q'(5) have "int (unat (size_q q') + (if size_q q \<noteq> 0 then 1 else 0))
      = int (unat (size_q q))"
    by (rule arg_cong)
  then have "int (unat (size_q q')) = int (unat (size_q q)) + resident_delta (Dequeued ?r)"
    by (cases "size_q q = 0") simp_all
  with q'(1-4) show ?thesis
    unfolding Dequeue by (intro exec_call_invI[of _ _ "Dequeued ?r" q']) simp_all
next
  case (Try_enqueue p)
  show ?thesis
  proof (cases "size_q q < capacity_m q")
    case True
    let ?q' = "q\<lparr>tail_seq_m := tail_seq_m q + 1,
                 buffer_m := (buffer_m q)[unat (tail_seq_m q AND mask_m q) :=
                                \<lparr>packet = p, seq = tail_seq_m q + 1\<rparr>]\<rparr>"
    note a = queue_inv_after_enqueue[OF inv True, of p]
    from a(2) have "int (unat (size_q ?q')) = int (Suc (unat (size_q q)))" by (rule arg_cong)
    then have "int (unat (size_q ?q')) = int (unat (size_q q)) + resident_delta (Enqueued True)"
      by simp
    with a(1) True show ?thesis
      unfolding Try_enqueue
      by (intro exec_call_invI[of _ _ "Enqueued True" ?q']) (simp_all add: try_enqueue_inv[OF inv])
  next
    case False
    with inv show ?thesis
      unfolding Try_enqueue
      by (intro exec_call_invI[of _ _ "Enqueued False" q]) (simp_all add: try_enqueue_inv[OF inv])
  qed
next
  case Try_dequeue
  show ?thesis
  proof (cases "size_q q \<noteq> 0")
    case True
    let ?p = "packet (buffer_m q ! unat (head_seq_m q AND mask_m q))"
    let ?q' = "q\<lparr>head_seq_m := head_seq_m q + 1,
           buffer_m := (buffer_m q)[unat (head_seq_m q AND mask_m q) :=
              \<lparr>packet = ?p\<lparr>data := 0, length_p := 0, id_p := 0\<rparr>,
               seq = head_seq_m q + capacity_m q\<rparr>]\<rparr>"
    note a = queue_inv_after_dequeue[OF inv True, of "?p\<lparr>data := 0, length_p := 0, id_p := 0\<rparr>"]
    from a(2) have "int (Suc (unat (size_q ?q'))) = int (unat (size_q q))" by (rule arg_cong)
    then have "int (unat (size_q ?q')) = int (unat (size_q q)) + resident_delta (Dequeued (Some ?p))"
      by simp
    with a(1) True show ?thesis
      unfolding Try_dequeue
      by (intro exec_call_invI[of _ _ "Dequeued (Some ?p)" ?q'])
         (simp_all add: try_dequeue_inv[OF inv])
  next
    case False
    with inv show ?thesis
      unfolding Try_dequeue
      by (intro exec_call_invI[of _ _ "Dequeued None" q]) (simp_all add: try_dequeue_inv[OF inv])
  qed
next
  case (Enqueue_batch ps spur)
  let ?m = "min (length ps) (unat (capacity_m q) - unat (size_q q))"
  from enqueue_batch_inv[OF inv, of ps spur] obtain q' where
    q': "enqueue_batch q ps spur = Some (?m, q')" "queue_inv q'"
      "capacity_m q' = capacity_m q" "enable_stats_m q' = enable_stats_m q"
      "unat (size_q q') = unat (size_q q) + ?m"
    by blast
  from q'(5) have "int (unat (size_q q')) = int (unat (size_q q) + ?m)" by (rule arg_cong)
  then have "int (unat (size_q q')) = int (unat (size_q q)) + resident_delta (Batch_enqueued ?m)"
    by simp
  with q'(1-4) show ?thesis
    unfolding Enqueue_batch by (intro exec_call_invI[of _ _ "Batch_enqueued ?m" q']) simp_all
next
  case (Dequeue_batch ps spur)
  let ?m = "if head_seq_m q \<ge> tail_seq_m q then 0 else min (length ps) (unat (size_q q))"
  from dequeue_batch_inv[OF inv, of ps spur] obtain q' ps' where
    q': "dequeue_batch q ps spur = Some (?m, q', ps')" "queue_inv q'"
      "capacity_m q' = capacity_m q" "enable_stats_m q' = enable_stats_m q"
      "unat (size_q q') + ?m = unat (size_q q)"
    by blast
  from q'(5) have "int (unat (size_q q') + ?m) = int (unat (size_q q))" by (rule arg_cong)
  then have "int (unat (size_q q')) = int (unat (size_q q)) + resident_delta (Batch_dequeued ?m ps')"
    by (cases "tail_seq_m q \<le> head_seq_m q") simp_all
  with q'(1-4) show ?thesis
    unfolding Dequeue_batch by (intro exec_call_invI[of _ _ "Batch_dequeued ?m ps'" q']) simp_all
next
  case Reset_stats
  have "queue_inv (reset_stats q)" using inv by (simp add: queue_inv_reset_stats)
  then show ?thesis
    unfolding Reset_stats
    by (intro exec_call_invI[of _ _ Stats_reset "reset_stats q"])
       (simp_all add: reset_stats_def size_q_def)
qed

lemma run_inv:
  assumes "queue_inv q"
  shows "\<exists>outs q'. run calls q = Some (outs, q') \<and> queue_inv q'
           \<and> capacity_m q' = capacity_m q \<and> enable_stats_m q' = enable_stats_m q
           \<and> int (unat (size_q q')) = int (unat (size_q q)) + resident outs"
  using assms
proof (induction calls arbitrary: q)
  case Nil
  then show ?case by (simp add: resident_def)
next
  case (Cons c cs)
  from exec_call_inv[OF Cons.prems, of c] obtain out q1 where
    1: "exec_call c q = Some (out, q1)" "queue_inv q1" "capacity_m q1 = capacity_m q"
       "enable_stats_m q1 = enable_stats_m q"
       "int (unat (size_q q1)) = int (unat (size_q q)) + resident_delta out" by blast
  from Cons.IH[OF 1(2)] obtain outs q2 where
    2: "run cs q1 = Some (outs, q2)" "queue_inv q2" "capacity_m q2 = capacity_m q1"
       "enable_stats_m q2 = enable_stats_m q1"
       "int (unat (size_q q2)) = int (unat (size_q q1)) + resident outs" by blast
  from 1 2 show ?case by (simp add: resident_def)
qed

subsection \<open>Statistics\<close>

lemma unat_inc: "unat (x::64 word) \<le> n \<Longrightarrow> Suc n < 2 ^ 64 \<Longrightarrow> unat (x + 1) = Suc (unat x)"
proof -
  assume "unat x \<le> n" "Suc n < 2 ^ 64"
  then have "unat x + unat (1::64 word) < 2 ^ LENGTH(64)" by simp
  then have "unat (x + 1) = unat x + unat (1::64 word)" using unat_add_lem[of x 1] by blast
  then show ?thesis by simp
qed

lemma stats_bounded_mono: "stats_bounded s c \<Longrightarrow> c \<le> c' \<Longrightarrow> stats_bounded s c'"
  by (auto simp: stats_bounded_def)

lemma stats_bounded_enqueue:
  assumes "stats_bounded s n" "Suc n < 2 ^ 64"
  shows "stats_bounded (s\<lparr>enqueue_attempts := enqueue_attempts s + 1,
                           enqueue_successes := enqueue_successes s + (if ok then 1 else 0)\<rparr>) (Suc n)"
proof -
  from assms have a: "unat (enqueue_attempts s + 1) = Suc (unat (enqueue_attempts s))"
    by (intro unat_inc[of _ n]) (auto simp: stats_bounded_def)
  from assms have b: "unat (enqueue_successes s + 1) = Suc (unat (enqueue_successes s))"
    by (intro unat_inc[of _ n]) (auto simp: stats_bounded_def)
  from assms(1) show ?thesis by (auto simp: stats_bounded_def a b)
qed

lemma stats_bounded_dequeue:
  assumes "stats_bounded s n" "Suc n < 2 ^ 64"
  shows "stats_bounded (s\<lparr>dequeue_attempts := dequeue_attempts s + 1,
                           dequeue_successes := dequeue_successes s + (if ok then 1 else 0)\<rparr>) (Suc n)"
proof -
  from assms have a: "unat (dequeue_attempts s + 1) = Suc (unat (dequeue_attempts s))"
    by (intro unat_inc[of _ n]) (auto simp: stats_bounded_def)
  from assms have b: "unat (dequeue_successes s + 1) = Suc (unat (dequeue_successes s))"
    by (intro unat_inc[of _ n]) (auto simp: stats_bounded_def)
  from assms(1) show ?thesis by (auto simp: stats_bounded_def a b)
qed

lemma exec_call_stats:
  assumes inv: "queue_inv q" and ex: "exec_call c q = Some (out, q')"
    and sb: "stats_bounded (stats_m q) n" and n: "Suc n < 2 ^ 64"
  shows "stats_bounded (stats_m q') (Suc n)"
proof -
  have mono: "stats_bounded (stats_m q) (Suc n)" using sb by (rule stats_bounded_mono) simp
  show ?thesis
  proof (cases c)
    case (Enqueue p spur)
    from enqueue_inv[OF inv, of p spur] ex
    have "stats_m q' = (if enable_stats_m q then
            (stats_m q)\<lparr>enqueue_attempts := enqueue_attempts (stats_m q) + 1,
               enqueue_successes := enqueue_successes (stats_m q)
                  + (if size_q q < capacity_m q then 1 else 0)\<rparr>
            else stats_m q)"
      unfolding Enqueue by auto
    then show ?thesis
      using stats_bounded_enqueue[OF sb n, of "size_q q < capacity_m q"] mono
      by (simp split: if_splits)
  next
    case (Enqueue_move p spur)
    from enqueue_move_inv[OF inv, of p spur] ex
    have "stats_m q' = (if enable_stats_m q then
            (stats_m q)\<lparr>enqueue_attempts := enqueue_attempts (stats_m q) + 1,
               enqueue_successes := enqueue_successes (stats_m q)
                  + (if size_q q < capacity_m q then 1 else 0)\<rparr>
            else stats_m q)"
      unfolding Enqueue_move by auto
    then show ?thesis
      using stats_bounded_enqueue[OF sb n, of "size_q q < capacity_m q"] mono
      by (simp split: if_splits)
  next
    case (Dequeue spur)
    from dequeue_inv[OF inv, of spur] ex
    have "stats_m q' = (if enable_stats_m q then
            (stats_m q)\<lparr>dequeue_attempts := dequeue_attempts (stats_m q) + 1,
               dequeue_successes := dequeue_successes (stats_m q)
                  + (if size_q q \<noteq> 0 then 1 else 0)\<rparr>
            else stats_m q)"
      unfolding Dequeue by auto
    then show ?thesis
      using stats_bounded_dequeue[OF sb n, of "size_q q \<noteq> 0"] mono
      by (simp split: if_splits)
  next
    case (Try_enqueue p)
    with ex have "stats_m q' = stats_m q"
      by (auto simp: try_enqueue_inv[OF inv] split: if_splits)
    with mono show ?thesis by simp
  next
    case Try_dequeue
    with ex have "stats_m q' = stats_m q"
      by (auto simp: try_dequeue_inv[OF inv] split: if_splits)
    with mono show ?thesis by simp
  next
    case (Enqueue_batch ps spur)
    from enqueue_batch_inv[OF inv, of ps spur] ex
    have "stats_m q' = (if enable_stats_m q \<and> ps \<noteq> [] then
                  (stats_m q)\<lparr>batch_enqueues := batch_enqueues (stats_m q) + 1\<rparr>
                else stats_m q)"
      unfolding Enqueue_batch by auto
    with mono show ?thesis by (auto simp: stats_bounded_def split: if_splits)
  next
    case (Dequeue_batch ps spur)
    from dequeue_batch_inv[OF inv, of ps spur] ex
    have "stats_m q' = (if enable_stats_m q \<and> ps \<noteq> [] then
                  (stats_m q)\<lparr>batch_dequeues := batch_dequeues (stats_m q) + 1\<rparr>
                else stats_m q)"
      unfolding Dequeue_batch by auto
    with mono show ?thesis by (auto simp: stats_bounded_def split: if_splits)
  next
    case Reset_stats
    with ex show ?thesis
      by (auto simp: reset_stats_def QueueStats_reset_def stats_bounded_def)
  qed
qed

lemma run_stats:
  assumes "queue_inv q" "run calls q = Some (outs, q')"
    "stats_bounded (stats_m q) n" "n + length calls < 2 ^ 64"
  shows "stats_bounded (stats_m q') (n + length calls)"
  using assms
proof (induction calls arbitrary: q n outs)
  case Nil
  then show ?case by simp
next
  case (Cons c cs)
  from exec_call_inv[OF Cons.prems(1), of c] obtain out q1 where
    1: "exec_call c q = Some (out, q1)" "queue_inv q1" by blast
  from Cons.prems(4) have n: "Suc n < 2 ^ 64" by simp
  have sb1: "stats_bounded (stats_m q1) (Suc n)"
    using Cons.prems(1) 1(1) Cons.prems(3) n by (rule exec_call_stats)
  from Cons.prems(2) 1(1) obtain outs1 where 2: "run cs q1 = Some (outs1, q')"
    by (auto split: option.splits)
  have "stats_bounded (stats_m q') (Suc n + length cs)"
    using 1(2) 2 sb1 by (rule Cons.IH) (use Cons.prems(4) in simp)
  then show ?case by simp
qed

lemma run_append:
  "run (xs @ ys) q =
     (case run xs q of None \<Rightarrow> None
      | Some (outs, q') \<Rightarrow>
          (case run ys q' of None \<Rightarrow> None | Some (outs', q'') \<Rightarrow> Some (outs @ outs', q'')))"
  by (induction xs arbitrary: q) (auto split: option.splits)

text \<open>Enqueue calls on a full queue only count attempts.\<close>

lemma run_enqueue_full:
  assumes "queue_inv q" "\<not> size_q q < capacity_m q" "enable_stats_m q"
  shows "\<exists>outs q'. run (replicate N (Enqueue p spur)) q = Some (outs, q')
           \<and> enqueue_attempts (stats_m q') = enqueue_attempts (stats_m q) + of_nat N
           \<and> enqueue_successes (stats_m q') = enqueue_successes (stats_m q)"
  using assms
proof (induction N arbitrary: q)
  case 0
  then show ?case by simp
next
  case (Suc N)
  from enqueue_inv[OF Suc.prems(1), of p spur] Suc.prems(2,3) obtain q1 where
    1: "enqueue q p spur = Some (False, q1)" "queue_inv q1" "capacity_m q1 = capacity_m q"
      "enable_stats_m q1" "unat (size_q q1) = unat (size_q q)"
      "stats_m q1 = (stats_m q)\<lparr>enqueue_attempts := enqueue_attempts (stats_m q) + 1,
                    enqueue_successes := enqueue_successes (stats_m q) + 0\<rparr>"
    by auto
  from 1(5) have "size_q q1 = size_q q" by (simp add: word_unat_eq_iff)
  with Suc.prems(2) 1(3) have full1: "\<not> size_q q1 < capacity_m q1" by simp
  from Suc.IH[OF 1(2) full1 1(4)] obtain outs q' where
    2: "run (replicate N (Enqueue p spur)) q1 = Some (outs, q')"
      "enqueue_attempts (stats_m q') = enqueue_attempts (stats_m q1) + of_nat N"
      "enqueue_successes (stats_m q') = enqueue_successes (stats_m q1)" by blast
  from 1(1) 2 show ?case by (simp add: 1(6))
qed

subsection \<open>Reachable states\<close>

lemma capacity_ge_2: "queue_inv q \<Longrightarrow> 2 \<le> unat (capacity_m q)"
proof -
  assume "queue_inv q"
  then obtain k where k: "1 \<le> k" "k \<le> 62" "capacity_m q = 2 ^ k" by (rule queue_invD)
  from k(1) have "(2::nat) ^ 1 \<le> 2 ^ k" by (intro power_increasing) simp_all
  with k(2,3) show ?thesis by (simp add: unat_pow2)
qed

lemma reachable_inv:
  assumes "construct n st = Inr q0" "run calls q0 = Some (outs, q)"
  shows "queue_inv q" and "int (unat (size_q q)) = resident outs"
proof -
  note c = construct_inv[OF assms(1)]
  from run_inv[OF c(1), of calls] assms(2) c(2,3)
  show "queue_inv q" and "int (unat (size_q q)) = resident outs"
    by (auto simp: size_q_def)
qed

text \<open>The example execution, evaluated.\<close>

lemma example_run:
  "map_option fst (run_new 4 True example_calls) =
     Some [Enqueued True, Batch_enqueued 2, Dequeued (Some (Packet_of_id 1)), Enqueued True,
           Enqueued True, Enqueued False, Dequeued (Some (Packet_of_id 2)),
           Batch_dequeued 2 [Packet_of_id 3, Packet_of_id 4]]"
  by code_simp

lemma example_queue_constructed: "construct 4 True = Inr example_queue"
  unfolding example_queue_def by code_simp

lemma example_final_run:
  "run example_calls example_queue = Some (fst example_final, snd example_final)"
  unfolding example_final_def example_queue_def by code_simp

lemma replicate_split: "k \<le> N \<Longrightarrow> replicate N x = replicate k x @ replicate (N - k) x"
  by (simp add: replicate_add[symmetric])

lemma wrap_queue_constructed: "construct 1 True = Inr wrap_queue"
  unfolding wrap_queue_def by code_simp

lemma wrap_full_run:
  "run (replicate 2 (Enqueue (Packet_of_id 0) [])) wrap_queue = Some (fst wrap_full, snd wrap_full)"
  unfolding wrap_full_def wrap_queue_def by code_simp

lemma wrap_full_facts:
  "enqueue_attempts (stats_m (snd wrap_full)) = 2"
  "enqueue_successes (stats_m (snd wrap_full)) = 2"
  "\<not> size_q (snd wrap_full) < capacity_m (snd wrap_full)"
  "enable_stats_m (snd wrap_full)"
  unfolding wrap_full_def wrap_queue_def by code_simp+

lemma word64_wrap: "(2::64 word) + of_nat (2 ^ 64 - 2) = 0"
proof -
  have "(of_nat (2 ^ 64 - 2) :: 64 word) = of_nat (2 ^ 64) - of_nat 2"
    by (rule of_nat_diff) simp
  also have "\<dots> = - 2" by simp
  finally show ?thesis by simp
qed

text \<open>A new queue of capacity 4.\<close>

lemma construct_4:
  assumes "construct 4 st = Inr q0"
  shows "queue_inv q0" and "unat (capacity_m q0) = 4" and "head_seq_m q0 = 0"
    and "size_q q0 = 0" and "contents q0 = []"
proof -
  note c = construct_inv[OF assms]
  have "next_power_of_two 4 = 2 ^ 2" by (rule next_power_of_two_eq) simp_all
  with c(6) show "unat (capacity_m q0) = 4" by simp
  show "queue_inv q0" "head_seq_m q0 = 0" by (rule c(1), rule c(2))
  show z: "size_q q0 = 0" using c(2,3) by (simp add: size_q_def)
  show "contents q0 = []" using z by (simp add: contents_def slot_packets_def)
qed

lemma construct_4_accepted: "\<exists>q0. construct 4 st = Inr q0"
proof -
  have "round_up_to_power_of_two 4 = 4" by code_simp
  then show ?thesis by (simp add: construct_eq)
qed

section \<open>Theorems\<close>

text \<open>
  C5. Evaluation of the move constructor and of move assignment at a packet of priority
  \<open>High\<close>: the moved-from packet has a null payload pointer, length 0 and id 0, and its
  priority is still \<open>High\<close>, so it differs from a default-constructed packet (and from
  the packet that \<open>reset\<close> leaves), whose priority is \<open>Low\<close>.
\<close>

theorem moved_from_keeps_priority:
  "snd (Packet_move_ctor (Packet_full 4096 64 High 7))
     = \<lparr>data = 0, length_p = 0, priority = High, id_p = 0\<rparr>
   \<and> snd (Packet_move_assign False Packet_default (Packet_full 4096 64 High 7))
     = \<lparr>data = 0, length_p = 0, priority = High, id_p = 0\<rparr>
   \<and> snd (Packet_move_ctor (Packet_full 4096 64 High 7)) \<noteq> Packet_default
   \<and> Packet_reset (Packet_full 4096 64 High 7) = Packet_default"
  by (simp add: Packet_move_ctor_def Packet_move_assign_def Packet_full_def
      Packet_default_def Packet_reset_def)

text \<open>
  C6, as the claim states it, fails: at step counter 80 a call sleeps and leaves the
  counter at 80.
\<close>

theorem backoff_increment_counterexample:
  "\<not> (\<forall>n. snd (Backoff_call n) = n + 1)"
proof
  assume "\<forall>n. snd (Backoff_call n) = n + 1"
  then have "snd (Backoff_call 80) = 80 + 1" by blast
  then show False by (simp add: Backoff_call_def MAX_SPINS_def MAX_YIELDS_def)
qed

text \<open>
  C6, amended. One call of the backoff policy at step counter \<open>n\<close> spins for \<open>2 ^ n\<close>
  pause hints when \<open>n < 16\<close>, yields once when \<open>16 \<le> n < 80\<close> and sleeps for one
  microsecond when \<open>80 \<le> n\<close>; it increments the counter in the first two cases and
  leaves it unchanged in the third; \<open>reset\<close> returns the counter to 0.
\<close>

theorem backoff_policy:
  "Backoff_call n =
     (if n < 16 then (Spin (2 ^ n), n + 1)
      else if n < 80 then (Yield, n + 1)
      else (Sleep_us 1, n))
   \<and> Backoff_reset n = 0"
  by (simp add: Backoff_call_def Backoff_reset_def MAX_SPINS_def MAX_YIELDS_def)

text \<open>
  C1. In every state reached from a constructed queue by a sequence of calls (enqueue by
  copy or by move, dequeue, try\_enqueue, try\_dequeue, enqueue\_batch, dequeue\_batch,
  reset\_stats), the capacity is at least 2, \<open>size()\<close> is \<open>tail - head\<close>, this
  difference (modulo \<open>2 ^ 64\<close>, so never negative) is at most the capacity, and it is the
  number of elements resident: those added by successful single enqueues and by batch
  enqueues minus those taken by successful single dequeues and by batch dequeues.
\<close>

theorem size_invariant:
  assumes "construct n st = Inr q0" and "run calls q0 = Some (outs, q)"
  shows "2 \<le> unat (capacity q)
       \<and> size_q q = tail_seq_m q - head_seq_m q
       \<and> unat (tail_seq_m q - head_seq_m q) \<le> unat (capacity q)
       \<and> int (unat (size_q q)) = resident outs"
proof -
  note r = reachable_inv[OF assms]
  from r(1) have "size_q q \<le> capacity_m q" by (simp add: queue_inv_def)
  then have "unat (tail_seq_m q - head_seq_m q) \<le> unat (capacity q)"
    by (simp add: size_q_def capacity_def word_le_nat_alt)
  with r capacity_ge_2[OF r(1)] show ?thesis by (simp add: capacity_def size_q_def)
qed

text \<open>
  The theorem at the example execution on a queue of capacity 4: one element is left.
\<close>

theorem size_invariant_witness:
  "construct 4 True = Inr example_queue
   \<and> run example_calls example_queue = Some (fst example_final, snd example_final)
   \<and> capacity (snd example_final) = 4
   \<and> size_q (snd example_final) = 1
   \<and> resident (fst example_final) = 1"
proof -
  have c: "size_q (snd example_final) = 1"
    unfolding example_final_def example_queue_def by code_simp
  have d: "capacity (snd example_final) = 4"
    unfolding example_final_def example_queue_def by code_simp
  from size_invariant[OF example_queue_constructed example_final_run]
    example_queue_constructed example_final_run c d
  show ?thesis by simp
qed

text \<open>
  C2. Construction rejects the requested capacity 0. Where it accepts a requested
  capacity \<open>n\<close>, \<open>n\<close> is positive, \<open>capacity()\<close> is \<open>max 2 (next_power_of_two n)\<close>, both
  cursors are 0, the buffer has \<open>capacity()\<close> slots and slot \<open>i\<close> holds \<open>seq = i\<close>.
\<close>

theorem construct_capacity_rounding:
  "construct 0 st = Inl (Invalid_argument ''Capacity must be greater than 0'')
   \<and> (construct n st = Inr q \<longrightarrow>
        n \<noteq> 0
        \<and> unat (capacity q) = max 2 (next_power_of_two (unat n))
        \<and> head_seq_m q = 0 \<and> tail_seq_m q = 0
        \<and> length (buffer_m q) = unat (capacity q)
        \<and> (\<forall>i < unat (capacity q). seq (buffer_m q ! i) = of_nat i))"
proof (intro conjI impI)
  show "construct 0 st = Inl (Invalid_argument ''Capacity must be greater than 0'')"
    by (simp add: construct_eq)
next
  assume a: "construct n st = Inr q"
  then show "n \<noteq> 0" by (auto simp: construct_eq)
  note c = construct_inv[OF a]
  show "unat (capacity q) = max 2 (next_power_of_two (unat n))"
    using c(6) by (simp add: capacity_def)
  show "head_seq_m q = 0" "tail_seq_m q = 0" by (rule c(2), rule c(3))
  show "length (buffer_m q) = unat (capacity q)"
    using c(1) by (simp add: queue_inv_def capacity_def)
  show "\<forall>i < unat (capacity q). seq (buffer_m q ! i) = of_nat i"
    using c(7) by (simp add: capacity_def)
qed

theorem construct_capacity_rounding_witness:
  "construct 5 False = Inr (projr (construct 5 False))
   \<and> unat (capacity (projr (construct 5 False))) = max 2 (next_power_of_two 5)
   \<and> capacity (projr (construct 5 False)) = 8
   \<and> head_seq_m (projr (construct 5 False)) = 0 \<and> tail_seq_m (projr (construct 5 False)) = 0
   \<and> length (buffer_m (projr (construct 5 False))) = 8
   \<and> seq (buffer_m (projr (construct 5 False)) ! 6) = 6"
proof -
  have a: "construct 5 False = Inr (projr (construct 5 False))" by code_simp
  have b: "capacity (projr (construct 5 False)) = 8" by code_simp
  from construct_capacity_rounding[of False 5 "projr (construct 5 False)"] a b
  show ?thesis by simp
qed

text \<open>
  C9. Neither \<open>try_enqueue\<close> nor \<open>try_dequeue\<close> changes the statistics block, whatever
  the state of the queue and whether or not the call succeeds.
\<close>

theorem try_variants_leave_stats:
  "stats_m (snd (try_enqueue q p)) = stats_m q \<and> stats_m (snd (try_dequeue q)) = stats_m q"
  by (simp add: try_enqueue_def try_dequeue_def Let_def split: prod.splits)

text \<open>
  C10. In every state reached from a constructed queue by a sequence of calls, each of
  enqueue (by copy and by move), dequeue, enqueue\_batch and dequeue\_batch returns,
  whatever finite number of its weak compare-exchanges fail spuriously: a boolean, an
  optional packet, or a count that is at most the size of the span. So does every
  further sequence of calls.
\<close>

theorem operations_terminate:
  assumes "construct n st = Inr q0" and "run calls q0 = Some (outs, q)"
  shows "(\<exists>ok q'. enqueue q p spur = Some (ok, q'))
       \<and> (\<exists>ok q' p'. enqueue_move q p spur = Some (ok, q', p'))
       \<and> (\<exists>r q'. dequeue q spur = Some (r, q'))
       \<and> (\<exists>cnt q'. enqueue_batch q ps spur = Some (cnt, q') \<and> cnt \<le> length ps)
       \<and> (\<exists>cnt q' ps'. dequeue_batch q ps spur = Some (cnt, q', ps') \<and> cnt \<le> length ps)
       \<and> (\<exists>outs' q'. run cs q = Some (outs', q'))"
proof -
  note inv = reachable_inv(1)[OF assms]
  from enqueue_inv[OF inv, of p spur] have 1: "\<exists>ok q'. enqueue q p spur = Some (ok, q')" by blast
  from enqueue_move_inv[OF inv, of p spur]
  have 2: "\<exists>ok q' p'. enqueue_move q p spur = Some (ok, q', p')" by blast
  from dequeue_inv[OF inv, of spur] have 3: "\<exists>r q'. dequeue q spur = Some (r, q')" by blast
  from enqueue_batch_inv[OF inv, of ps spur] obtain q' where
    "enqueue_batch q ps spur = Some (min (length ps) (unat (capacity_m q) - unat (size_q q)), q')"
    by blast
  then have 4: "\<exists>cnt q'. enqueue_batch q ps spur = Some (cnt, q') \<and> cnt \<le> length ps"
    by (intro exI[of _ "min (length ps) (unat (capacity_m q) - unat (size_q q))"] exI[of _ q']) simp
  from dequeue_batch_inv[OF inv, of ps spur] obtain q' ps' where
    "dequeue_batch q ps spur = Some (if head_seq_m q \<ge> tail_seq_m q then 0
                      else min (length ps) (unat (size_q q)), q', ps')"
    by blast
  then have 5: "\<exists>cnt q' ps'. dequeue_batch q ps spur = Some (cnt, q', ps') \<and> cnt \<le> length ps"
    by (intro exI[of _ "if head_seq_m q \<ge> tail_seq_m q then 0
                      else min (length ps) (unat (size_q q))"] exI[of _ q'] exI[of _ ps']) simp
  from run_inv[OF inv, of cs] have 6: "\<exists>outs' q'. run cs q = Some (outs', q')" by blast
  from 1 2 3 4 5 6 show ?thesis by blast
qed

text \<open>The theorem at the state that the example execution reaches.\<close>

theorem operations_terminate_witness:
  "construct 4 True = Inr example_queue
   \<and> run example_calls example_queue = Some (fst example_final, snd example_final)
   \<and> (\<exists>ok q'. enqueue (snd example_final) (Packet_of_id 7) [True] = Some (ok, q'))
   \<and> (\<exists>ok q' p'. enqueue_move (snd example_final) (Packet_of_id 7) [True] = Some (ok, q', p'))
   \<and> (\<exists>r q'. dequeue (snd example_final) [True] = Some (r, q'))
   \<and> (\<exists>cnt q'. enqueue_batch (snd example_final) [Packet_of_id 8, Packet_of_id 9] [True]
                   = Some (cnt, q') \<and> cnt \<le> length [Packet_of_id 8, Packet_of_id 9])
   \<and> (\<exists>cnt q' ps'. dequeue_batch (snd example_final) [Packet_of_id 8, Packet_of_id 9] [True]
                   = Some (cnt, q', ps') \<and> cnt \<le> length [Packet_of_id 8, Packet_of_id 9])
   \<and> (\<exists>outs' q'. run [Dequeue []] (snd example_final) = Some (outs', q'))"
  using operations_terminate[OF example_queue_constructed example_final_run,
      of "Packet_of_id 7" "[True]" "[Packet_of_id 8, Packet_of_id 9]" "[Dequeue []]"]
    example_queue_constructed example_final_run
  by blast



text \<open>
  C8, as the claim states it, fails: the counters are 64-bit and wrap. On a queue of
  capacity 2 with statistics, \<open>2 ^ 64\<close> calls of enqueue (two succeed, the others find
  the queue full) leave \<open>enqueue_attempts = 0\<close> and \<open>enqueue_successes = 2\<close>.
\<close>

theorem stats_wrap_counterexample:
  "map_option (\<lambda>(outs, q). (enqueue_attempts (stats_m q), enqueue_successes (stats_m q)))
     (run_new 1 True (replicate (2 ^ 64) (Enqueue (Packet_of_id 0) []))) = Some (0, 2)"
proof -
  let ?E = "Enqueue (Packet_of_id 0) []"
  have inv: "queue_inv (snd wrap_full)"
    using wrap_queue_constructed wrap_full_run by (rule reachable_inv(1))
  from run_enqueue_full[OF inv wrap_full_facts(3,4), of "2 ^ 64 - 2" "Packet_of_id 0" "[]"]
  obtain outs q' where r: "run (replicate (2 ^ 64 - 2) ?E) (snd wrap_full) = Some (outs, q')"
    "enqueue_attempts (stats_m q') = enqueue_attempts (stats_m (snd wrap_full)) + of_nat (2 ^ 64 - 2)"
    "enqueue_successes (stats_m q') = enqueue_successes (stats_m (snd wrap_full))"
    by blast
  have split: "replicate (2 ^ 64) ?E = replicate 2 ?E @ replicate (2 ^ 64 - 2) ?E"
    by (rule replicate_split) simp
  have "run (replicate 2 ?E @ replicate (2 ^ 64 - 2) ?E) wrap_queue
          = Some (fst wrap_full @ outs, q')"
    by (simp only: run_append wrap_full_run r(1) option.case prod.case)
  then have "run (replicate (2 ^ 64) ?E) wrap_queue = Some (fst wrap_full @ outs, q')"
    by (simp only: split)
  moreover have "enqueue_attempts (stats_m q') = 0"
    unfolding r(2) wrap_full_facts(1) by (rule word64_wrap)
  moreover have "enqueue_successes (stats_m q') = 2"
    unfolding r(3) by (rule wrap_full_facts(2))
  ultimately show ?thesis
    by (simp add: run_new_def wrap_queue_constructed)
qed

text \<open>
  C8, amended. After any sequence of fewer than \<open>2 ^ 64\<close> calls on a constructed queue
  (with statistics or without), \<open>enqueue_successes \<le> enqueue_attempts\<close> and
  \<open>dequeue_successes \<le> dequeue_attempts\<close>.
\<close>

theorem stats_successes_le_attempts:
  assumes "construct n st = Inr q0" and "run calls q0 = Some (outs, q)"
    and "length calls < 2 ^ 64"
  shows "enqueue_successes (stats_m q) \<le> enqueue_attempts (stats_m q)
       \<and> dequeue_successes (stats_m q) \<le> dequeue_attempts (stats_m q)"
proof -
  note c = construct_inv[OF assms(1)]
  have "stats_bounded (stats_m q0) 0"
    by (simp add: c(4) stats_bounded_def QueueStats_init_def)
  with c(1) assms(2) have "stats_bounded (stats_m q) (0 + length calls)"
    by (rule run_stats) (use assms(3) in simp)
  then show ?thesis by (simp add: stats_bounded_def word_le_nat_alt)
qed

text \<open>The theorem at the example execution.\<close>

theorem stats_successes_le_attempts_witness:
  "construct 4 True = Inr example_queue
   \<and> run example_calls example_queue = Some (fst example_final, snd example_final)
   \<and> length example_calls < 2 ^ 64
   \<and> enqueue_successes (stats_m (snd example_final))
         \<le> enqueue_attempts (stats_m (snd example_final))
   \<and> dequeue_successes (stats_m (snd example_final))
         \<le> dequeue_attempts (stats_m (snd example_final))"
proof -
  have l: "length example_calls < 2 ^ 64" by (simp add: example_calls_def)
  from stats_successes_le_attempts[OF example_queue_constructed example_final_run l]
    example_queue_constructed example_final_run l
  show ?thesis by blast
qed

text \<open>
  C3. On a new queue of capacity 4: the enqueues of ids 0, 1, 2, 3 return true, the
  enqueue of id 999 returns false, a dequeue returns the packet of id 0, the enqueue of
  id 999 now returns true, and four dequeues return the packets of ids 1, 2, 3, 999.
\<close>

theorem fill_drain_capacity_4:
  "map_option fst (run_new 4 False
      [Enqueue (Packet_of_id 0) [], Enqueue (Packet_of_id 1) [], Enqueue (Packet_of_id 2) [],
       Enqueue (Packet_of_id 3) [], Enqueue (Packet_of_id 999) [], Dequeue [],
       Enqueue (Packet_of_id 999) [], Dequeue [], Dequeue [], Dequeue [], Dequeue []])
   = Some [Enqueued True, Enqueued True, Enqueued True, Enqueued True, Enqueued False,
           Dequeued (Some (Packet_of_id 0)), Enqueued True,
           Dequeued (Some (Packet_of_id 1)), Dequeued (Some (Packet_of_id 2)),
           Dequeued (Some (Packet_of_id 3)), Dequeued (Some (Packet_of_id 999))]"
  by code_simp

text \<open>
  C4. On a new queue of capacity 4 (with statistics or without), for every span \<open>ps\<close>
  of 8 packets, whatever their fields, and every writable span \<open>out\<close> of 8 packets:
  the batch enqueue of \<open>ps\<close> returns 4; the batch dequeue into \<open>out\<close> then returns 4
  and leaves in \<open>out\<close> the first 4 packets of \<open>ps\<close>, in their order, followed by the
  last 4 packets that \<open>out\<close> held before. This holds whatever finite number of weak
  compare-exchanges fail spuriously in either call.
\<close>

theorem batch_over_enqueue_capacity_4:
  assumes "length ps = 8" and "length out = 8"
  shows "map_option fst (run_new 4 st [Enqueue_batch ps s1, Dequeue_batch out s2])
           = Some [Batch_enqueued 4, Batch_dequeued 4 (take 4 ps @ drop 4 out)]"
proof -
  from construct_4_accepted obtain q0 where q0: "construct 4 st = Inr q0" by blast
  note c = construct_4[OF q0]
  from enqueue_batch_inv[OF c(1), of ps s1] obtain q1 where
    q1: "enqueue_batch q0 ps s1
           = Some (min (length ps) (unat (capacity_m q0) - unat (size_q q0)), q1)"
      "queue_inv q1"
      "unat (size_q q1)
         = unat (size_q q0) + min (length ps) (unat (capacity_m q0) - unat (size_q q0))"
      "head_seq_m q1 = head_seq_m q0"
      "contents q1 = contents q0
         @ take (min (length ps) (unat (capacity_m q0) - unat (size_q q0))) ps"
    by blast
  have m1: "min (length ps) (unat (capacity_m q0) - unat (size_q q0)) = 4"
    using assms(1) c(2,4) by simp
  have e1: "enqueue_batch q0 ps s1 = Some (4, q1)" using q1(1) unfolding m1 .
  have sz1: "unat (size_q q1) = 4" using q1(3) unfolding m1 by (simp add: c(4))
  have cont1: "contents q1 = take 4 ps" using q1(5) unfolding m1 by (simp add: c(5))
  have h1: "head_seq_m q1 = 0" using q1(4) c(3) by simp
  have nonempty: "\<not> tail_seq_m q1 \<le> head_seq_m q1"
  proof
    assume "tail_seq_m q1 \<le> head_seq_m q1"
    then have "tail_seq_m q1 = 0" by (simp add: h1)
    then have "size_q q1 = 0" by (simp add: size_q_def h1)
    with sz1 show False by simp
  qed
  from dequeue_batch_inv[OF q1(2), of out s2] obtain q2 out' where
    q2: "dequeue_batch q1 out s2
           = Some (if head_seq_m q1 \<ge> tail_seq_m q1 then 0
                   else min (length out) (unat (size_q q1)), q2, out')"
      "out' = take (if head_seq_m q1 \<ge> tail_seq_m q1 then 0
                    else min (length out) (unat (size_q q1))) (contents q1)
              @ drop (if head_seq_m q1 \<ge> tail_seq_m q1 then 0
                      else min (length out) (unat (size_q q1))) out"
    by blast
  have m2: "(if head_seq_m q1 \<ge> tail_seq_m q1 then 0
             else min (length out) (unat (size_q q1))) = 4"
    using nonempty assms(2) sz1 by simp
  have e2: "dequeue_batch q1 out s2 = Some (4, q2, out')" using q2(1) unfolding m2 .
  have o2: "out' = take 4 ps @ drop 4 out" using q2(2) unfolding m2 by (simp add: cont1)
  show ?thesis
    by (simp add: run_new_def q0 e1 e2 o2)
qed

text \<open>
  The theorem at eight packets that differ in every field, with spurious failures in
  both calls.
\<close>

theorem batch_over_enqueue_capacity_4_witness:
  "length [Packet_full 4096 10 Low 100, Packet_full 4112 20 Medium 101,
           Packet_full 4128 30 High 102, Packet_full 4144 40 Control 103,
           Packet_full 4160 50 Low 104, Packet_full 4176 60 Medium 105,
           Packet_full 4192 70 High 106, Packet_full 4208 80 Control 107] = 8
   \<and> length (replicate 8 Packet_default) = 8
   \<and> map_option fst (run_new 4 True
        [Enqueue_batch [Packet_full 4096 10 Low 100, Packet_full 4112 20 Medium 101,
           Packet_full 4128 30 High 102, Packet_full 4144 40 Control 103,
           Packet_full 4160 50 Low 104, Packet_full 4176 60 Medium 105,
           Packet_full 4192 70 High 106, Packet_full 4208 80 Control 107] [True],
         Dequeue_batch (replicate 8 Packet_default) [True, True]])
      = Some [Batch_enqueued 4,
              Batch_dequeued 4
                [Packet_full 4096 10 Low 100, Packet_full 4112 20 Medium 101,
                 Packet_full 4128 30 High 102, Packet_full 4144 40 Control 103,
                 Packet_default, Packet_default, Packet_default, Packet_default]]"
proof -
  let ?ps = "[Packet_full 4096 10 Low 100, Packet_full 4112 20 Medium 101,
           Packet_full 4128 30 High 102, Packet_full 4144 40 Control 103,
           Packet_full 4160 50 Low 104, Packet_full 4176 60 Medium 105,
           Packet_full 4192 70 High 106, Packet_full 4208 80 Control 107]"
  have a: "length ?ps = 8" by simp
  have b: "length (replicate 8 Packet_default) = 8" by simp
  have r: "replicate 8 Packet_default
             = [Packet_default, Packet_default, Packet_default, Packet_default,
                Packet_default, Packet_default, Packet_default, Packet_default]"
    by (simp add: numeral_eq_Suc)
  from batch_over_enqueue_capacity_4[OF a b, of True "[True]" "[True, True]"] a b
  show ?thesis by (simp add: r)
qed

end
